theory Spec2Isabelle
  imports Main
begin

section \<open>The card presentation engine of CardCollection.jsx and CardSlideshow.jsx\<close>

text \<open>
  The two components carry the same logic line by line (CardSlideshow was extracted from
  CardCollection), so one embedding serves both. A React function component is modelled
  as: the values held by its \<open>useState\<close> hooks (record \<open>state\<close>), everything that
  lives outside the render (the browser's armed timers, the two \<open>useRef\<close> cells, the
  dependency array React kept from the last run of the effect: record \<open>env\<close>), the
  handlers as functions on the pair of both, and \<open>commit\<close>, which is what React does
  after a handler has run: re-render and, when a dependency changed, run the previous
  effect's cleanup and then the effect.

  A closure of the source sees the constants of the render that created it. For a
  handler attached to the rendered elements this is the latest render, so it reads the
  current state. A callback handed to \<open>setTimeout\<close> or \<open>setInterval\<close> keeps the
  values of the render in which it was created; these captured values are stored with
  the timer. Setters with an updater function (\<open>prev => ...\<close>) read the state current
  at the time they run. All setter calls of one handler are applied together.

  Real time is not modelled: an armed timer may fire at any moment, as the event
  \<open>TimerFires\<close>. Numbers are JavaScript numbers holding integers, modelled as \<open>int\<close>.
\<close>

subsection \<open>Data\<close>

type_synonym handle = nat

record state =
  currentCardIndex :: int
  isAutoPlaying :: bool
  progress :: int
  isFlipped :: bool
  touchStart :: "int option"
  touchEnd :: "int option"
  flipTimer :: "handle option"
  wasAutoPlayingBeforeFlip :: bool

text \<open>The constants \<open>nextCard\<close> closes over (its \<open>useCallback\<close> dependency list).\<close>

record closure =
  cl_length :: nat
  cl_isFlipped :: bool
  cl_flipTimer :: "handle option"
  cl_was :: bool

text \<open>
  An armed browser timer: the one-shot flip-revert timeout with its delay in milliseconds
  and the \<open>wasAutoPlayingBeforeFlip\<close> its callback closed over; the progress interval
  with its period; the card-rotation interval with its period and the \<open>nextCard\<close> it
  closed over.
\<close>

datatype timer =
    FlipRevertTimeout int bool
  | ProgressInterval int
  | AdvanceInterval int closure

text \<open>
  The dependency array of the effect: \<open>isAutoPlaying\<close>, \<open>currentCardIndex\<close>,
  \<open>cards.length\<close>, \<open>startAutoPlay\<close>, \<open>isFlipped\<close>, \<open>flipTimer\<close>,
  \<open>wasAutoPlayingBeforeFlip\<close>. The identity of \<open>startAutoPlay\<close> changes exactly when
  \<open>tickInterval\<close> or \<open>nextCard\<close> does, and that of \<open>nextCard\<close> exactly when
  \<open>cards.length\<close>, \<open>isFlipped\<close>, \<open>flipTimer\<close> or \<open>wasAutoPlayingBeforeFlip\<close>
  does, so \<open>tickInterval\<close> stands for it here.
\<close>

record deps =
  d_isAutoPlaying :: bool
  d_currentCardIndex :: int
  d_length :: nat
  d_tickInterval :: int
  d_isFlipped :: bool
  d_flipTimer :: "handle option"
  d_was :: bool

record env =
  nextHandle :: handle
  armed :: "(handle \<times> timer) list"
  intervalRef :: "handle option"
  progressRef :: "handle option"
  effectDeps :: "deps option"

record 'c props =
  cards :: "'c list"
  tickInterval :: int

type_synonym config = "state \<times> env"

datatype ui_event =
    ClickNext
  | ClickPrev
  | ClickCard
  | ClickPlayPause
  | TouchStart int
  | TouchMove int
  | TouchEnd

datatype event = User ui_event | TimerFires handle

subsection \<open>JavaScript primitives\<close>

text \<open>
  The remainder operator \<open>%\<close> takes the sign of the dividend. Every use in the source
  is under \<open>cards.length > 0\<close>, so the divisor is never zero there.
\<close>

definition js_rem :: "int \<Rightarrow> int \<Rightarrow> int" where
  "js_rem a b = sgn a * (\<bar>a\<bar> mod \<bar>b\<bar>)"

text \<open>\<open>if (h)\<close> on a timer handle: \<open>null\<close> and \<open>0\<close> are falsy.\<close>

definition truthy :: "handle option \<Rightarrow> bool" where
  "truthy h = (case h of None \<Rightarrow> False | Some i \<Rightarrow> i \<noteq> 0)"

text \<open>\<open>!x\<close> on a recorded coordinate: \<open>null\<close> and \<open>0\<close> are falsy.\<close>

definition falsy_coord :: "int option \<Rightarrow> bool" where
  "falsy_coord x = (case x of None \<Rightarrow> True | Some v \<Rightarrow> v = 0)"

text \<open>
  \<open>setTimeout\<close> and \<open>setInterval\<close> draw handles from one counter, which starts above
  zero; \<open>clearTimeout\<close> and \<open>clearInterval\<close> cancel whatever timer has the handle, and
  do nothing for \<open>null\<close> or an unknown handle.
\<close>

definition setTimer :: "timer \<Rightarrow> env \<Rightarrow> handle \<times> env" where
  "setTimer t e =
     (nextHandle e, e\<lparr>nextHandle := Suc (nextHandle e), armed := armed e @ [(nextHandle e, t)]\<rparr>)"

definition clearTimer :: "handle option \<Rightarrow> env \<Rightarrow> env" where
  "clearTimer h e = e\<lparr>armed := filter (\<lambda>p. Some (fst p) \<noteq> h) (armed e)\<rparr>"

definition clearIfSet :: "handle option \<Rightarrow> env \<Rightarrow> env" where
  "clearIfSet h e = (if truthy h then clearTimer h e else e)"

subsection \<open>The component\<close>

definition init_state :: "bool \<Rightarrow> state" where
  "init_state initialAutoPlay =
     \<lparr>currentCardIndex = 0, isAutoPlaying = initialAutoPlay, progress = 0, isFlipped = False,
      touchStart = None, touchEnd = None, flipTimer = None, wasAutoPlayingBeforeFlip = False\<rparr>"

definition init_env :: env where
  "init_env = \<lparr>nextHandle = 1, armed = [], intervalRef = None, progressRef = None,
               effectDeps = None\<rparr>"

text \<open>\<open>cards[currentCardIndex] || null\<close>\<close>

definition currentCard :: "'c list \<Rightarrow> state \<Rightarrow> 'c option" where
  "currentCard cs s =
     (if 0 \<le> currentCardIndex s \<and> currentCardIndex s < int (length cs)
      then Some (cs ! nat (currentCardIndex s)) else None)"

definition closure_of :: "nat \<Rightarrow> state \<Rightarrow> closure" where
  "closure_of n s =
     \<lparr>cl_length = n, cl_isFlipped = isFlipped s, cl_flipTimer = flipTimer s,
      cl_was = wasAutoPlayingBeforeFlip s\<rparr>"

text \<open>The block both \<open>nextCard\<close> and \<open>prevCard\<close> start with.\<close>

definition resetFlip :: "closure \<Rightarrow> config \<Rightarrow> config" where
  "resetFlip c cfg =
     (case cfg of (s, e) \<Rightarrow>
        if cl_isFlipped c then
          (let s1 = s\<lparr>isFlipped := False, flipTimer := None\<rparr>;
               s2 = (if cl_was c
                     then s1\<lparr>isAutoPlaying := True, wasAutoPlayingBeforeFlip := False\<rparr>
                     else s1)
           in (s2, clearTimer (cl_flipTimer c) e))
        else (s, e))"

definition nextCard :: "closure \<Rightarrow> config \<Rightarrow> config" where
  "nextCard c cfg =
     (case resetFlip c cfg of (s, e) \<Rightarrow>
        if cl_length c > 0 then
          (s\<lparr>currentCardIndex := js_rem (currentCardIndex s + 1) (int (cl_length c)),
             progress := 0\<rparr>, e)
        else (s, e))"

definition prevCard :: "closure \<Rightarrow> config \<Rightarrow> config" where
  "prevCard c cfg =
     (case resetFlip c cfg of (s, e) \<Rightarrow>
        if cl_length c > 0 then
          (s\<lparr>currentCardIndex :=
               js_rem (currentCardIndex s - 1 + int (cl_length c)) (int (cl_length c)),
             progress := 0\<rparr>, e)
        else (s, e))"

definition startAutoPlay :: "int \<Rightarrow> closure \<Rightarrow> config \<Rightarrow> config" where
  "startAutoPlay tick c cfg =
     (case cfg of (s, e) \<Rightarrow>
        (let e1 = clearIfSet (intervalRef e) e;
             e2 = clearIfSet (progressRef e1) e1;
             s1 = s\<lparr>progress := 0\<rparr>;
             (hp, e3) = setTimer (ProgressInterval (tick * 1000 div 100)) e2;
             e4 = e3\<lparr>progressRef := Some hp\<rparr>;
             (ha, e5) = setTimer (AdvanceInterval (tick * 1000) c) e4
         in (s1, e5\<lparr>intervalRef := Some ha\<rparr>)))"

definition stopAutoPlay :: "config \<Rightarrow> config" where
  "stopAutoPlay cfg =
     (case cfg of (s, e) \<Rightarrow>
        (let e1 = clearIfSet (intervalRef e) e;
             e2 = clearIfSet (progressRef e1) e1
         in (s\<lparr>progress := 0\<rparr>, e2)))"

text \<open>The callback of the progress interval.\<close>

definition progressTick :: "state \<Rightarrow> state" where
  "progressTick s = s\<lparr>progress := (if progress s \<ge> 100 then 0 else progress s + 1)\<rparr>"

text \<open>
  The callback handed to \<open>setTimeout\<close> in \<open>handleCardClick\<close>; \<open>w\<close> is the
  \<open>wasAutoPlayingBeforeFlip\<close> of the render in which the card was clicked.
\<close>

definition flipRevert :: "bool \<Rightarrow> state \<Rightarrow> state" where
  "flipRevert w s =
     (let s1 = s\<lparr>isFlipped := False, flipTimer := None\<rparr>;
          s2 = (if w then s1\<lparr>isAutoPlaying := True\<rparr> else s1)
      in s2\<lparr>wasAutoPlayingBeforeFlip := False\<rparr>)"

definition handleCardClick :: "config \<Rightarrow> config" where
  "handleCardClick cfg =
     (case cfg of (s, e) \<Rightarrow>
        if isFlipped s then
          (let e1 = clearTimer (flipTimer s) e;
               s1 = s\<lparr>isFlipped := False, flipTimer := None\<rparr>;
               s2 = (if wasAutoPlayingBeforeFlip s then s1\<lparr>isAutoPlaying := True\<rparr> else s1)
           in (s2\<lparr>wasAutoPlayingBeforeFlip := False\<rparr>, e1))
        else
          (let s1 = s\<lparr>wasAutoPlayingBeforeFlip := isAutoPlaying s\<rparr>;
               s2 = (if isAutoPlaying s then s1\<lparr>isAutoPlaying := False\<rparr> else s1);
               s3 = s2\<lparr>isFlipped := True\<rparr>;
               (h, e1) = setTimer (FlipRevertTimeout 5000 (wasAutoPlayingBeforeFlip s)) e
           in (s3\<lparr>flipTimer := Some h\<rparr>, e1)))"

definition handlePlayPauseClick :: "state \<Rightarrow> state" where
  "handlePlayPauseClick s = s\<lparr>isAutoPlaying := \<not> isAutoPlaying s\<rparr>"

definition handleTouchStart :: "int \<Rightarrow> state \<Rightarrow> state" where
  "handleTouchStart x s = s\<lparr>touchEnd := None, touchStart := Some x\<rparr>"

definition handleTouchMove :: "int \<Rightarrow> state \<Rightarrow> state" where
  "handleTouchMove x s = s\<lparr>touchEnd := Some x\<rparr>"

definition handleTouchEnd :: "nat \<Rightarrow> config \<Rightarrow> config" where
  "handleTouchEnd n cfg =
     (case cfg of (s, e) \<Rightarrow>
        if falsy_coord (touchStart s) \<or> falsy_coord (touchEnd s) then (s, e)
        else
          (let distance = the (touchStart s) - the (touchEnd s);
               isLeftSwipe = distance > 50;
               isRightSwipe = distance < - 50
           in if isLeftSwipe then nextCard (closure_of n s) (s, e)
              else if isRightSwipe then prevCard (closure_of n s) (s, e)
              else (s, e)))"

subsection \<open>The effect\<close>

definition deps_of :: "'c props \<Rightarrow> state \<Rightarrow> deps" where
  "deps_of p s =
     \<lparr>d_isAutoPlaying = isAutoPlaying s, d_currentCardIndex = currentCardIndex s,
      d_length = length (cards p), d_tickInterval = tickInterval p,
      d_isFlipped = isFlipped s, d_flipTimer = flipTimer s,
      d_was = wasAutoPlayingBeforeFlip s\<rparr>"

definition effectBody :: "'c props \<Rightarrow> config \<Rightarrow> config" where
  "effectBody p cfg =
     (case cfg of (s, e) \<Rightarrow>
        if isAutoPlaying s \<and> length (cards p) > 0 \<and> \<not> isFlipped s
        then startAutoPlay (tickInterval p) (closure_of (length (cards p)) s) (s, e)
        else stopAutoPlay (s, e))"

text \<open>The function the effect returns; \<open>f\<close> is the \<open>flipTimer\<close> of the render it ran in.\<close>

definition effectCleanup :: "handle option \<Rightarrow> config \<Rightarrow> config" where
  "effectCleanup f cfg = (case stopAutoPlay cfg of (s, e) \<Rightarrow> (s, clearIfSet f e))"

text \<open>
  After a render React compares the dependency array with the one of the last run; when
  they differ it runs the last cleanup and then the effect. Both only set \<open>progress\<close>,
  which is no dependency, so the render they cause runs no further effect.
\<close>

definition commit :: "'c props \<Rightarrow> config \<Rightarrow> config" where
  "commit p cfg =
     (case cfg of (s, e) \<Rightarrow>
        if effectDeps e = Some (deps_of p s) then (s, e)
        else
          (case effectBody p
                  (case effectDeps e of None \<Rightarrow> (s, e)
                   | Some d \<Rightarrow> effectCleanup (d_flipTimer d) (s, e)) of
             (s', e') \<Rightarrow> (s', e'\<lparr>effectDeps := Some (deps_of p s)\<rparr>)))"

subsection \<open>Events\<close>

text \<open>A timer that fires: a timeout is disarmed by firing, an interval stays armed.\<close>

definition fireTimer :: "handle \<Rightarrow> config \<Rightarrow> config" where
  "fireTimer h cfg =
     (case cfg of (s, e) \<Rightarrow>
        (case map_of (armed e) h of
           None \<Rightarrow> (s, e)
         | Some (FlipRevertTimeout d w) \<Rightarrow> (flipRevert w s, clearTimer (Some h) e)
         | Some (ProgressInterval d) \<Rightarrow> (progressTick s, e)
         | Some (AdvanceInterval d c) \<Rightarrow> nextCard c (s, e)))"

text \<open>
  The handlers are attached to the card, the two arrow buttons and the play/pause button.
  With \<open>cards.length === 0\<close> the component returns the "No cards available" placeholder,
  which has none of these elements, so no click or touch reaches a handler.
\<close>

fun handleUser :: "nat \<Rightarrow> ui_event \<Rightarrow> config \<Rightarrow> config" where
  "handleUser n ClickNext (s, e) = nextCard (closure_of n s) (s, e)"
| "handleUser n ClickPrev (s, e) = prevCard (closure_of n s) (s, e)"
| "handleUser n ClickCard (s, e) = handleCardClick (s, e)"
| "handleUser n ClickPlayPause (s, e) = (handlePlayPauseClick s, e)"
| "handleUser n (TouchStart x) (s, e) = (handleTouchStart x s, e)"
| "handleUser n (TouchMove x) (s, e) = (handleTouchMove x s, e)"
| "handleUser n TouchEnd (s, e) = handleTouchEnd n (s, e)"

definition handleEvent :: "nat \<Rightarrow> event \<Rightarrow> config \<Rightarrow> config" where
  "handleEvent n ev cfg =
     (case ev of
        TimerFires h \<Rightarrow> fireTimer h cfg
      | User u \<Rightarrow> if n = 0 then cfg else handleUser n u cfg)"

definition step :: "'c props \<Rightarrow> event \<Rightarrow> config \<Rightarrow> config" where
  "step p ev cfg = commit p (handleEvent (length (cards p)) ev cfg)"

definition mount :: "'c props \<Rightarrow> bool \<Rightarrow> config" where
  "mount p initialAutoPlay = commit p (init_state initialAutoPlay, init_env)"

text \<open>The collaborator passes new props (for instance another item sequence).\<close>

definition rerender :: "'c props \<Rightarrow> config \<Rightarrow> config" where
  "rerender p cfg = commit p cfg"

definition run :: "'c props \<Rightarrow> event list \<Rightarrow> config \<Rightarrow> config" where
  "run p evs cfg = foldl (\<lambda>c ev. step p ev c) cfg evs"

subsection \<open>Sessions in which the collaborator also changes the props\<close>

datatype 'c action = Event event | NewProps "'c props"

fun perform :: "'c props \<times> config \<Rightarrow> 'c action \<Rightarrow> 'c props \<times> config" where
  "perform (p, cfg) (Event ev) = (p, step p ev cfg)"
| "perform (p, cfg) (NewProps q) = (q, rerender q cfg)"

definition session :: "'c props \<Rightarrow> bool \<Rightarrow> 'c action list \<Rightarrow> 'c props \<times> config" where
  "session p b acts = foldl perform (p, mount p b) acts"

subsection \<open>Consistency of the timers with the state\<close>

text \<open>
  The advance timer and the progress ticker are meant to run exactly in this case; it is
  the condition of the effect.
\<close>

definition active :: "nat \<Rightarrow> state \<Rightarrow> bool" where
  "active n s = (isAutoPlaying s \<and> n > 0 \<and> \<not> isFlipped s)"

definition is_flip :: "handle \<times> timer \<Rightarrow> bool" where
  "is_flip x = (case snd x of FlipRevertTimeout d w \<Rightarrow> True | _ \<Rightarrow> False)"

text \<open>
  An armed timer is reachable from the component: a flip-revert timeout is the one whose
  handle is in \<open>flipTimer\<close>, of a card that is flipped, and it closed over
  \<open>wasAutoPlayingBeforeFlip = false\<close>; an interval is the one whose handle is in its ref.
\<close>

definition timer_linked :: "state \<Rightarrow> env \<Rightarrow> handle \<times> timer \<Rightarrow> bool" where
  "timer_linked s e x =
     (case snd x of
        FlipRevertTimeout d w \<Rightarrow> flipTimer s = Some (fst x) \<and> isFlipped s \<and> d = 5000 \<and> \<not> w
      | ProgressInterval d \<Rightarrow> progressRef e = Some (fst x)
      | AdvanceInterval d c \<Rightarrow> intervalRef e = Some (fst x))"

text \<open>
  After the effect has run, an interval is armed only while autoplay is meant to run, and
  the advance interval calls the \<open>nextCard\<close> of the latest render.
\<close>

definition timer_current :: "nat \<Rightarrow> state \<Rightarrow> handle \<times> timer \<Rightarrow> bool" where
  "timer_current n s x =
     (case snd x of
        FlipRevertTimeout d w \<Rightarrow> True
      | ProgressInterval d \<Rightarrow> active n s
      | AdvanceInterval d c \<Rightarrow> active n s \<and> c = closure_of n s)"

text \<open>Handles are positive and below the browser's counter.\<close>

definition handles_ok :: "env \<Rightarrow> bool" where
  "handles_ok e = (0 < nextHandle e \<and> list_all (\<lambda>x. 0 < fst x \<and> fst x < nextHandle e) (armed e))"

text \<open>What holds between a handler and the effect that follows it.\<close>

definition timers_ok :: "config \<Rightarrow> bool" where
  "timers_ok cfg = (case cfg of (s, e) \<Rightarrow>
     handles_ok e \<and> list_all (timer_linked s e) (armed e) \<and>
     (\<not> isFlipped s \<longrightarrow> \<not> wasAutoPlayingBeforeFlip s \<and> flipTimer s = None))"

text \<open>What holds whenever the component is idle, after the effect has run.\<close>

definition engine_inv :: "'c props \<Rightarrow> config \<Rightarrow> bool" where
  "engine_inv p cfg = (case cfg of (s, e) \<Rightarrow>
     timers_ok (s, e) \<and> list_all (timer_current (length (cards p)) s) (armed e) \<and>
     (\<not> active (length (cards p)) s \<longrightarrow> progress s = 0) \<and>
     effectDeps e = Some (deps_of p s))"

text \<open>While the sequence is empty no timer is armed.\<close>

definition empty_disarmed :: "'c props \<times> config \<Rightarrow> bool" where
  "empty_disarmed pc = (cards (fst pc) = [] \<longrightarrow> armed (snd (snd pc)) = [])"

definition index_ok :: "'c props \<Rightarrow> config \<Rightarrow> bool" where
  "index_ok p cfg =
     (0 \<le> currentCardIndex (fst cfg) \<and> currentCardIndex (fst cfg) < int (length (cards p)))"

subsection \<open>Example inputs\<close>

definition three_cards :: "string props" where
  "three_cards = \<lparr>cards = [''a'', ''b'', ''c''], tickInterval = 5\<rparr>"

definition one_card :: "string props" where
  "one_card = \<lparr>cards = [''a''], tickInterval = 5\<rparr>"

definition no_cards :: "string props" where
  "no_cards = \<lparr>cards = [], tickInterval = 5\<rparr>"

section \<open>The invariant\<close>

text \<open>The definitions a concrete run unfolds to.\<close>

lemmas engine_defs =
  mount_def step_def run_def commit_def rerender_def handleEvent_def fireTimer_def
  effectBody_def effectCleanup_def startAutoPlay_def stopAutoPlay_def deps_of_def
  handleCardClick_def handlePlayPauseClick_def handleTouchStart_def handleTouchMove_def
  handleTouchEnd_def nextCard_def prevCard_def resetFlip_def closure_of_def flipRevert_def
  progressTick_def setTimer_def clearTimer_def clearIfSet_def truthy_def falsy_coord_def
  js_rem_def init_state_def init_env_def currentCard_def Let_def


lemma timer_linked_cong:
  "flipTimer s' = flipTimer s \<Longrightarrow> isFlipped s' = isFlipped s \<Longrightarrow>
   progressRef e' = progressRef e \<Longrightarrow> intervalRef e' = intervalRef e \<Longrightarrow>
   timer_linked s' e' x = timer_linked s e x"
  by (simp add: timer_linked_def split: timer.splits)

lemma timer_linked_interval:
  "\<not> is_flip x \<Longrightarrow> progressRef e' = progressRef e \<Longrightarrow> intervalRef e' = intervalRef e \<Longrightarrow>
   timer_linked s' e' x = timer_linked s e x"
  by (simp add: timer_linked_def is_flip_def split: timer.splits)

lemma timer_current_cong:
  "isAutoPlaying s' = isAutoPlaying s \<Longrightarrow> isFlipped s' = isFlipped s \<Longrightarrow>
   flipTimer s' = flipTimer s \<Longrightarrow>
   wasAutoPlayingBeforeFlip s' = wasAutoPlayingBeforeFlip s \<Longrightarrow>
   timer_current n s' x = timer_current n s x"
  by (simp add: timer_current_def active_def closure_of_def split: timer.splits)

lemma timer_current_flip: "is_flip x \<Longrightarrow> timer_current n s x"
  by (simp add: timer_current_def is_flip_def split: timer.splits)

lemma timers_okD:
  assumes "timers_ok (s, e)"
  shows "0 < nextHandle e"
    and "x \<in> set (armed e) \<Longrightarrow> timer_linked s e x"
    and "x \<in> set (armed e) \<Longrightarrow> 0 < fst x"
    and "x \<in> set (armed e) \<Longrightarrow> fst x < nextHandle e"
    and "\<not> isFlipped s \<Longrightarrow> \<not> wasAutoPlayingBeforeFlip s"
    and "\<not> isFlipped s \<Longrightarrow> flipTimer s = None"
  using assms by (auto simp: timers_ok_def handles_ok_def list_all_iff)

lemma timers_okI:
  assumes "0 < nextHandle e"
    and "\<And>x. x \<in> set (armed e) \<Longrightarrow> timer_linked s e x \<and> 0 < fst x \<and> fst x < nextHandle e"
    and "\<not> isFlipped s \<Longrightarrow> \<not> wasAutoPlayingBeforeFlip s \<and> flipTimer s = None"
  shows "timers_ok (s, e)"
  using assms by (auto simp: timers_ok_def handles_ok_def list_all_iff)

lemma timers_ok_no_flip:
  assumes "timers_ok (s, e)" and "\<not> isFlipped s" and "x \<in> set (armed e)"
  shows "\<not> is_flip x"
  using timers_okD(2)[OF assms(1,3)] assms(2)
  by (auto simp: timer_linked_def is_flip_def split: timer.splits)

lemma timers_ok_flip_handle:
  assumes "timers_ok (s, e)" and "x \<in> set (armed e)" and "is_flip x"
  shows "flipTimer s = Some (fst x)"
  using timers_okD(2)[OF assms(1,2)] assms(3)
  by (auto simp: timer_linked_def is_flip_def split: timer.splits)

lemma clearTimer_sel [simp]:
  "nextHandle (clearTimer h e) = nextHandle e"
  "intervalRef (clearTimer h e) = intervalRef e"
  "progressRef (clearTimer h e) = progressRef e"
  "effectDeps (clearTimer h e) = effectDeps e"
  "set (armed (clearTimer h e)) = {x \<in> set (armed e). Some (fst x) \<noteq> h}"
  by (auto simp: clearTimer_def)

lemma clearIfSet_sel [simp]:
  "nextHandle (clearIfSet h e) = nextHandle e"
  "intervalRef (clearIfSet h e) = intervalRef e"
  "progressRef (clearIfSet h e) = progressRef e"
  "effectDeps (clearIfSet h e) = effectDeps e"
  by (auto simp: clearIfSet_def)

lemma clearIfSet_armed:
  "set (armed (clearIfSet h e)) = {x \<in> set (armed e). \<not> (truthy h \<and> Some (fst x) = h)}"
  by (auto simp: clearIfSet_def)

lemma stop_state: "fst (stopAutoPlay (s, e)) = s\<lparr>progress := 0\<rparr>"
  by (simp add: stopAutoPlay_def Let_def)

lemma stop_env:
  "nextHandle (snd (stopAutoPlay (s, e))) = nextHandle e"
  "intervalRef (snd (stopAutoPlay (s, e))) = intervalRef e"
  "progressRef (snd (stopAutoPlay (s, e))) = progressRef e"
  "effectDeps (snd (stopAutoPlay (s, e))) = effectDeps e"
  "set (armed (snd (stopAutoPlay (s, e)))) =
     {x \<in> set (armed e). \<not> (truthy (intervalRef e) \<and> Some (fst x) = intervalRef e) \<and>
                            \<not> (truthy (progressRef e) \<and> Some (fst x) = progressRef e)}"
  by (auto simp: stopAutoPlay_def Let_def clearIfSet_armed)

lemma stop_flips:
  assumes "timers_ok (s, e)" and "x \<in> set (armed (snd (stopAutoPlay (s, e))))"
  shows "is_flip x"
proof -
  have mem: "x \<in> set (armed e)" using assms(2) by (simp add: stop_env)
  have l: "timer_linked s e x" and h: "0 < fst x" using timers_okD[OF assms(1)] mem by auto
  show ?thesis
  proof (rule ccontr)
    assume "\<not> is_flip x"
    then have "progressRef e = Some (fst x) \<or> intervalRef e = Some (fst x)"
      using l by (auto simp: timer_linked_def is_flip_def split: timer.splits)
    then show False using assms(2) h by (auto simp: stop_env truthy_def)
  qed
qed

lemma timers_ok_shrink:
  assumes "timers_ok (s, e)"
    and "set (armed e') \<subseteq> set (armed e)" and "nextHandle e' = nextHandle e"
    and "intervalRef e' = intervalRef e" and "progressRef e' = progressRef e"
    and "flipTimer s' = flipTimer s" and "isFlipped s' = isFlipped s"
    and "wasAutoPlayingBeforeFlip s' = wasAutoPlayingBeforeFlip s"
  shows "timers_ok (s', e')"
proof (rule timers_okI)
  show "0 < nextHandle e'" using timers_okD(1)[OF assms(1)] assms(3) by simp
next
  fix x assume "x \<in> set (armed e')"
  then have "x \<in> set (armed e)" using assms(2) by blast
  then show "timer_linked s' e' x \<and> 0 < fst x \<and> fst x < nextHandle e'"
    using timers_okD[OF assms(1)] assms(3-7) by (simp add: timer_linked_cong[of s' s e' e])
next
  assume "\<not> isFlipped s'"
  then show "\<not> wasAutoPlayingBeforeFlip s' \<and> flipTimer s' = None"
    using timers_okD(5,6)[OF assms(1)] assms(6-8) by simp
qed

lemma timers_ok_unflip:
  assumes "timers_ok (s, e)"
    and "set (armed e') \<subseteq> {x \<in> set (armed e). Some (fst x) \<noteq> flipTimer s}"
    and "nextHandle e' = nextHandle e"
    and "intervalRef e' = intervalRef e" and "progressRef e' = progressRef e"
    and "flipTimer s' = None" and "\<not> isFlipped s'" and "\<not> wasAutoPlayingBeforeFlip s'"
  shows "timers_ok (s', e')"
proof (rule timers_okI)
  show "0 < nextHandle e'" using timers_okD(1)[OF assms(1)] assms(3) by simp
next
  fix x assume "x \<in> set (armed e')"
  then have m: "x \<in> set (armed e)" and ne: "Some (fst x) \<noteq> flipTimer s"
    using assms(2) by blast+
  have "\<not> is_flip x" using timers_ok_flip_handle[OF assms(1) m] ne by auto
  then have "timer_linked s' e' x = timer_linked s e x"
    using assms(4,5) by (intro timer_linked_interval) simp_all
  then show "timer_linked s' e' x \<and> 0 < fst x \<and> fst x < nextHandle e'"
    using timers_okD[OF assms(1)] m assms(3) by simp
next
  show "\<not> wasAutoPlayingBeforeFlip s' \<and> flipTimer s' = None" using assms by simp
qed

lemma timers_ok_stop: "timers_ok (s, e) \<Longrightarrow> timers_ok (stopAutoPlay (s, e))"
proof -
  assume a: "timers_ok (s, e)"
  obtain s' e' where st: "stopAutoPlay (s, e) = (s', e')" by (cases "stopAutoPlay (s, e)")
  have s': "s' = s\<lparr>progress := 0\<rparr>" using stop_state[of s e] st by simp
  have "timers_ok (s', e')"
    using stop_env[of s e] by (intro timers_ok_shrink[OF a]) (auto simp: st s')
  then show ?thesis by (simp add: st)
qed


lemma timer_linked_effectDeps [simp]:
  "timer_linked s (e\<lparr>effectDeps := d\<rparr>) = timer_linked s e"
  by (rule ext) (simp add: timer_linked_def split: timer.splits)

lemma timer_linked_progress [simp]:
  "timer_linked (s\<lparr>progress := v\<rparr>) e = timer_linked s e"
  by (rule ext) (simp add: timer_linked_def split: timer.splits)

lemma timers_ok_effectDeps [simp]: "timers_ok (s, e\<lparr>effectDeps := d\<rparr>) = timers_ok (s, e)"
  by (simp add: timers_ok_def handles_ok_def)

lemma timers_ok_progress [simp]: "timers_ok (s\<lparr>progress := v\<rparr>, e) = timers_ok (s, e)"
  by (simp add: timers_ok_def handles_ok_def)

lemma timers_ok_clearIfSet: "timers_ok (s, e) \<Longrightarrow> timers_ok (s, clearIfSet h e)"
  by (rule timers_ok_shrink[of s e]) (auto simp: clearIfSet_armed)

lemma start_eq:
  "startAutoPlay tick c (s, e) =
     (s\<lparr>progress := 0\<rparr>,
      (snd (stopAutoPlay (s, e)))
        \<lparr>nextHandle := Suc (Suc (nextHandle e)),
         armed := armed (snd (stopAutoPlay (s, e))) @
                  [(nextHandle e, ProgressInterval (tick * 1000 div 100)),
                   (Suc (nextHandle e), AdvanceInterval (tick * 1000) c)],
         intervalRef := Some (Suc (nextHandle e)),
         progressRef := Some (nextHandle e)\<rparr>)"
  by (simp add: startAutoPlay_def stopAutoPlay_def Let_def setTimer_def clearIfSet_def
      clearTimer_def)

lemma effect_state: "fst (effectBody p (s, e)) = s\<lparr>progress := 0\<rparr>"
  by (simp add: effectBody_def start_eq stop_state)

lemma effect_deps: "effectDeps (snd (effectBody p (s, e))) = effectDeps e"
  by (simp add: effectBody_def start_eq stop_env)

lemma effect_timers_ok:
  assumes "timers_ok (s, e)"
  shows "timers_ok (effectBody p (s, e))"
proof (cases "active (length (cards p)) s")
  case False
  then show ?thesis using timers_ok_stop[OF assms] by (auto simp: effectBody_def active_def)
next
  case True
  let ?e1 = "snd (stopAutoPlay (s, e))"
  have p1: "timers_ok (s, ?e1)" using timers_ok_stop[OF assms] stop_state[of s e]
    by (cases "stopAutoPlay (s, e)") simp
  have nf: "\<not> isFlipped s" using True by (simp add: active_def)
  have emp: "armed ?e1 = []"
  proof (rule ccontr)
    assume "armed ?e1 \<noteq> []"
    then obtain x where x: "x \<in> set (armed ?e1)" by (cases "armed ?e1") auto
    from stop_flips[OF assms x] timers_ok_no_flip[OF p1 nf x] show False by simp
  qed
  have nh: "0 < nextHandle e" using timers_okD(1)[OF assms] .
  show ?thesis using True nf timers_okD(5,6)[OF assms nf] nh
    by (simp add: effectBody_def active_def start_eq emp timers_ok_def handles_ok_def
        timer_linked_def stop_env)
qed

lemma effect_current:
  assumes "timers_ok (s, e)" and "x \<in> set (armed (snd (effectBody p (s, e))))"
  shows "timer_current (length (cards p)) (s\<lparr>progress := 0\<rparr>) x"
proof (cases "active (length (cards p)) s")
  case False
  then have "is_flip x" using stop_flips[OF assms(1), of x] assms(2)
    by (auto simp: effectBody_def active_def split: if_splits)
  then show ?thesis by (rule timer_current_flip)
next
  case True
  from assms(2) True
  have "x \<in> set (armed (snd (stopAutoPlay (s, e)))) \<or>
        (\<exists>d. snd x = ProgressInterval d) \<or>
        (\<exists>d. snd x = AdvanceInterval d (closure_of (length (cards p)) s))"
    by (auto simp: effectBody_def active_def start_eq)
  then show ?thesis
  proof (elim disjE exE)
    assume "x \<in> set (armed (snd (stopAutoPlay (s, e))))"
    then show ?thesis using stop_flips[OF assms(1)] timer_current_flip by blast
  next
    fix d assume "snd x = ProgressInterval d"
    then show ?thesis using True by (simp add: timer_current_def active_def)
  next
    fix d assume "snd x = AdvanceInterval d (closure_of (length (cards p)) s)"
    then show ?thesis using True by (simp add: timer_current_def active_def closure_of_def)
  qed
qed

lemma commit_inv:
  assumes "timers_ok (s, e)" and "effectDeps e = Some (deps_of p s) \<Longrightarrow> engine_inv p (s, e)"
  shows "engine_inv p (commit p (s, e))"
proof (cases "effectDeps e = Some (deps_of p s)")
  case True
  then show ?thesis using assms(2) by (simp add: commit_def)
next
  case False
  define c1 where "c1 = (case effectDeps e of None \<Rightarrow> (s, e)
                         | Some d \<Rightarrow> effectCleanup (d_flipTimer d) (s, e))"
  have c1s: "fst c1 = s \<or> fst c1 = s\<lparr>progress := 0\<rparr>"
    using stop_state[of s e]
    by (cases "stopAutoPlay (s, e)") (auto simp: c1_def effectCleanup_def split: option.splits)
  have c1p: "timers_ok c1"
    using assms(1) timers_ok_stop[OF assms(1)] timers_ok_clearIfSet
    by (cases "stopAutoPlay (s, e)") (auto simp: c1_def effectCleanup_def split: option.splits)
  obtain s1 e1 where c1: "c1 = (s1, e1)" by (cases c1)
  obtain s2 e2 where c2: "effectBody p (s1, e1) = (s2, e2)" by (cases "effectBody p (s1, e1)")
  have s2: "s2 = s\<lparr>progress := 0\<rparr>"
    using effect_state[of p s1 e1] c1s by (auto simp: c1 c2)
  have com: "commit p (s, e) = (s2, e2\<lparr>effectDeps := Some (deps_of p s)\<rparr>)"
    using False by (simp add: commit_def c1_def[symmetric] c1 c2)
  have p2: "timers_ok (s2, e2)" using effect_timers_ok[of s1 e1 p] c1p by (simp add: c1 c2)
  have cur: "\<And>x. x \<in> set (armed e2) \<Longrightarrow> timer_current (length (cards p)) s2 x"
  proof -
    fix x assume "x \<in> set (armed e2)"
    then have "timer_current (length (cards p)) (s1\<lparr>progress := 0\<rparr>) x"
      using effect_current[of s1 e1 x p] c1p by (simp add: c1 c2)
    then show "timer_current (length (cards p)) s2 x"
      using c1s by (auto simp: c1 s2)
  qed
  have dq: "deps_of p s2 = deps_of p s" by (simp add: s2 deps_of_def)
  show ?thesis using p2 cur dq
    by (simp add: com engine_inv_def list_all_iff s2)
qed


lemma invD:
  assumes "engine_inv p (s, e)"
  shows "timers_ok (s, e)"
    and "x \<in> set (armed e) \<Longrightarrow> timer_current (length (cards p)) s x"
    and "\<not> active (length (cards p)) s \<Longrightarrow> progress s = 0"
    and "effectDeps e = Some (deps_of p s)"
  using assms by (auto simp: engine_inv_def list_all_iff)

lemma deps_ofD:
  assumes "deps_of p s' = deps_of p s"
  shows "isAutoPlaying s' = isAutoPlaying s" and "currentCardIndex s' = currentCardIndex s"
    and "isFlipped s' = isFlipped s" and "flipTimer s' = flipTimer s"
    and "wasAutoPlayingBeforeFlip s' = wasAutoPlayingBeforeFlip s"
proof -
  have "d_isAutoPlaying (deps_of p s') = d_isAutoPlaying (deps_of p s)"
    "d_currentCardIndex (deps_of p s') = d_currentCardIndex (deps_of p s)"
    "d_isFlipped (deps_of p s') = d_isFlipped (deps_of p s)"
    "d_flipTimer (deps_of p s') = d_flipTimer (deps_of p s)"
    "d_was (deps_of p s') = d_was (deps_of p s)"
    using assms by simp_all
  then show "isAutoPlaying s' = isAutoPlaying s" and "currentCardIndex s' = currentCardIndex s"
    and "isFlipped s' = isFlipped s" and "flipTimer s' = flipTimer s"
    and "wasAutoPlayingBeforeFlip s' = wasAutoPlayingBeforeFlip s"
    by (simp_all add: deps_of_def)
qed

text \<open>What a handler has to leave behind for the invariant to hold after the commit.\<close>

lemma handler_commit_inv:
  assumes i: "engine_inv p (s, e)" and p': "timers_ok (s', e')" and d: "effectDeps e' = effectDeps e"
    and same: "deps_of p s' = deps_of p s \<Longrightarrow>
               set (armed e') \<subseteq> set (armed e) \<and>
               (\<not> active (length (cards p)) s \<longrightarrow> progress s' = 0)"
  shows "engine_inv p (commit p (s', e'))"
proof (rule commit_inv[OF p'])
  assume "effectDeps e' = Some (deps_of p s')"
  then have eq: "deps_of p s' = deps_of p s" using d invD(4)[OF i] by simp
  note f = deps_ofD[OF eq]
  have act: "active (length (cards p)) s' = active (length (cards p)) s"
    by (simp add: active_def f)
  have "\<And>x. x \<in> set (armed e') \<Longrightarrow> timer_current (length (cards p)) s' x"
  proof -
    fix x assume "x \<in> set (armed e')"
    then have "x \<in> set (armed e)" using same[OF eq] by blast
    then have "timer_current (length (cards p)) s x" by (rule invD(2)[OF i])
    then show "timer_current (length (cards p)) s' x"
      by (simp add: timer_current_cong[of s' s] f)
  qed
  then show "engine_inv p (s', e')"
    using p' same[OF eq] act d invD(4)[OF i] eq by (simp add: engine_inv_def list_all_iff)
qed

lemma resetFlip_unflipped:
  "\<not> isFlipped s \<Longrightarrow> resetFlip (closure_of n s) (s, e) = (s, e)"
  by (simp add: resetFlip_def closure_of_def)

lemma resetFlip_flipped:
  assumes "isFlipped s" and "resetFlip (closure_of n s) (s, e) = (s', e')"
  shows "\<not> isFlipped s'" and "flipTimer s' = None" and "\<not> wasAutoPlayingBeforeFlip s'"
    and "isAutoPlaying s' = (wasAutoPlayingBeforeFlip s \<or> isAutoPlaying s)"
    and "currentCardIndex s' = currentCardIndex s" and "progress s' = progress s"
    and "e' = clearTimer (flipTimer s) e"
  using assms by (auto simp: resetFlip_def closure_of_def Let_def split: if_splits)

lemma resetFlip_timers_ok:
  assumes "timers_ok (s, e)"
  shows "timers_ok (resetFlip (closure_of n s) (s, e))"
proof (cases "isFlipped s")
  case False
  then show ?thesis using assms by (simp add: resetFlip_unflipped)
next
  case True
  obtain s' e' where r: "resetFlip (closure_of n s) (s, e) = (s', e')"
    by (cases "resetFlip (closure_of n s) (s, e)")
  note f = resetFlip_flipped[OF True r]
  have "timers_ok (s', e')" using f by (intro timers_ok_unflip[OF assms]) simp_all
  then show ?thesis by (simp add: r)
qed

lemma resetFlip_deps: "effectDeps (snd (resetFlip c (s, e))) = effectDeps e"
  by (simp add: resetFlip_def Let_def)

lemma resetFlip_armed: "set (armed (snd (resetFlip c (s, e)))) \<subseteq> set (armed e)"
  by (auto simp: resetFlip_def Let_def)

text \<open>Both navigation handlers: the flip reset, then a new index and \<open>progress = 0\<close>.\<close>

lemma navigate_inv:
  assumes i: "engine_inv p (s, e)"
    and r: "resetFlip (closure_of (length (cards p)) s) (s, e) = (s1, e1)"
    and s': "s' = s1 \<and> length (cards p) = 0 \<or> s' = s1\<lparr>currentCardIndex := k, progress := 0\<rparr>"
  shows "engine_inv p (commit p (s', e1))"
proof (rule handler_commit_inv[OF i])
  have p1: "timers_ok (s1, e1)" using resetFlip_timers_ok[OF invD(1)[OF i], of "length (cards p)"] r by simp
  from s' show "timers_ok (s', e1)"
  proof (elim disjE conjE)
    assume "s' = s1" then show ?thesis using p1 by simp
  next
    assume "s' = s1\<lparr>currentCardIndex := k, progress := 0\<rparr>"
    then show ?thesis by (intro timers_ok_shrink[OF p1]) simp_all
  qed
next
  show "effectDeps e1 = effectDeps e"
    using resetFlip_deps[of "closure_of (length (cards p)) s" s e] r by simp
next
  assume eq: "deps_of p s' = deps_of p s"
  have nf': "isFlipped s' = isFlipped s1" using s' by auto
  have nf: "\<not> isFlipped s"
  proof
    assume fl: "isFlipped s"
    from resetFlip_flipped(1)[OF fl r] nf' deps_ofD(3)[OF eq] fl show False by simp
  qed
  then have id: "s1 = s" "e1 = e" using r by (simp_all add: resetFlip_unflipped)
  have "\<not> active (length (cards p)) s \<longrightarrow> progress s' = 0"
    using s' invD(3)[OF i] by (auto simp: id)
  then show "set (armed e1) \<subseteq> set (armed e) \<and>
             (\<not> active (length (cards p)) s \<longrightarrow> progress s' = 0)"
    by (simp add: id)
qed

lemma closure_of_sel [simp]:
  "cl_length (closure_of n s) = n" "cl_isFlipped (closure_of n s) = isFlipped s"
  "cl_flipTimer (closure_of n s) = flipTimer s"
  "cl_was (closure_of n s) = wasAutoPlayingBeforeFlip s"
  by (simp_all add: closure_of_def)

lemma nextCard_inv:
  assumes "engine_inv p (s, e)"
  shows "engine_inv p (commit p (nextCard (closure_of (length (cards p)) s) (s, e)))"
proof -
  obtain s1 e1 where r: "resetFlip (closure_of (length (cards p)) s) (s, e) = (s1, e1)"
    by (cases "resetFlip (closure_of (length (cards p)) s) (s, e)")
  let ?k = "js_rem (currentCardIndex s1 + 1) (int (length (cards p)))"
  show ?thesis
  proof (cases "length (cards p) = 0")
    case True
    then have "nextCard (closure_of (length (cards p)) s) (s, e) = (s1, e1)"
      using r by (simp add: nextCard_def)
    then show ?thesis using navigate_inv[OF assms r, of s1] True by simp
  next
    case False
    then have "nextCard (closure_of (length (cards p)) s) (s, e) =
               (s1\<lparr>currentCardIndex := ?k, progress := 0\<rparr>, e1)"
      using r by (simp add: nextCard_def)
    then show ?thesis using navigate_inv[OF assms r, of _ ?k] by simp
  qed
qed

lemma prevCard_inv:
  assumes "engine_inv p (s, e)"
  shows "engine_inv p (commit p (prevCard (closure_of (length (cards p)) s) (s, e)))"
proof -
  obtain s1 e1 where r: "resetFlip (closure_of (length (cards p)) s) (s, e) = (s1, e1)"
    by (cases "resetFlip (closure_of (length (cards p)) s) (s, e)")
  let ?k = "js_rem (currentCardIndex s1 - 1 + int (length (cards p))) (int (length (cards p)))"
  show ?thesis
  proof (cases "length (cards p) = 0")
    case True
    then have "prevCard (closure_of (length (cards p)) s) (s, e) = (s1, e1)"
      using r by (simp add: prevCard_def)
    then show ?thesis using navigate_inv[OF assms r, of s1] True by simp
  next
    case False
    then have "prevCard (closure_of (length (cards p)) s) (s, e) =
               (s1\<lparr>currentCardIndex := ?k, progress := 0\<rparr>, e1)"
      using r by (simp add: prevCard_def)
    then show ?thesis using navigate_inv[OF assms r, of _ ?k] by simp
  qed
qed

lemma cardClick_inv:
  assumes i: "engine_inv p (s, e)"
  shows "engine_inv p (commit p (handleCardClick (s, e)))"
proof -
  note pr = invD(1)[OF i]
  obtain s' e' where h: "handleCardClick (s, e) = (s', e')" by (cases "handleCardClick (s, e)")
  have fl: "isFlipped s' = (\<not> isFlipped s)"
    using h by (auto simp: handleCardClick_def Let_def setTimer_def split: if_splits)
  have ed: "effectDeps e' = effectDeps e"
    using h by (auto simp: handleCardClick_def Let_def setTimer_def split: if_splits)
  have "timers_ok (s', e')"
  proof (cases "isFlipped s")
    case True
    then show ?thesis using h
      by (intro timers_ok_unflip[OF pr]) (auto simp: handleCardClick_def Let_def split: if_splits)
  next
    case False
    have e': "e' = e\<lparr>nextHandle := Suc (nextHandle e),
                      armed := armed e @ [(nextHandle e, FlipRevertTimeout 5000 False)]\<rparr>"
      and s': "flipTimer s' = Some (nextHandle e)" "isFlipped s'"
      using h False timers_okD(5)[OF pr False]
      by (auto simp: handleCardClick_def Let_def setTimer_def)
    show ?thesis
    proof (rule timers_okI)
      show "0 < nextHandle e'" by (simp add: e')
    next
      fix x assume "x \<in> set (armed e')"
      then consider "x \<in> set (armed e)" | "x = (nextHandle e, FlipRevertTimeout 5000 False)"
        by (auto simp: e')
      then show "timer_linked s' e' x \<and> 0 < fst x \<and> fst x < nextHandle e'"
      proof cases
        case 1
        have "\<not> is_flip x" by (rule timers_ok_no_flip[OF pr False 1])
        then have "timer_linked s' e' x = timer_linked s e x"
          by (intro timer_linked_interval) (simp_all add: e')
        then show ?thesis using timers_okD(2-4)[OF pr 1] by (simp add: e')
      next
        case 2
        then show ?thesis using s' timers_okD(1)[OF pr] by (simp add: timer_linked_def e')
      qed
    next
      assume "\<not> isFlipped s'"
      then show "\<not> wasAutoPlayingBeforeFlip s' \<and> flipTimer s' = None" using s' by simp
    qed
  qed
  moreover have "deps_of p s' \<noteq> deps_of p s"
    using deps_ofD(3)[of p s' s] fl by auto
  ultimately have "engine_inv p (commit p (s', e'))"
    using ed by (intro handler_commit_inv[OF i]) simp_all
  then show ?thesis by (simp add: h)
qed

lemma playPause_inv:
  assumes i: "engine_inv p (s, e)"
  shows "engine_inv p (commit p (handlePlayPauseClick s, e))"
proof (rule handler_commit_inv[OF i])
  show "timers_ok (handlePlayPauseClick s, e)"
    by (rule timers_ok_shrink[OF invD(1)[OF i]]) (simp_all add: handlePlayPauseClick_def)
next
  assume "deps_of p (handlePlayPauseClick s) = deps_of p s"
  from deps_ofD(1)[OF this]
  show "set (armed e) \<subseteq> set (armed e) \<and>
        (\<not> active (length (cards p)) s \<longrightarrow> progress (handlePlayPauseClick s) = 0)"
    by (simp add: handlePlayPauseClick_def)
qed simp

lemma touch_inv:
  assumes i: "engine_inv p (s, e)"
  shows "engine_inv p (commit p (handleTouchStart x s, e))"
    and "engine_inv p (commit p (handleTouchMove x s, e))"
proof -
  show "engine_inv p (commit p (handleTouchStart x s, e))"
    using invD(3)[OF i]
    by (intro handler_commit_inv[OF i] timers_ok_shrink[OF invD(1)[OF i]])
       (simp_all add: handleTouchStart_def)
  show "engine_inv p (commit p (handleTouchMove x s, e))"
    using invD(3)[OF i]
    by (intro handler_commit_inv[OF i] timers_ok_shrink[OF invD(1)[OF i]])
       (simp_all add: handleTouchMove_def)
qed

lemma commit_id: "engine_inv p (s, e) \<Longrightarrow> commit p (s, e) = (s, e)"
  by (simp add: commit_def invD(4))

lemma touchEnd_inv:
  assumes i: "engine_inv p (s, e)"
  shows "engine_inv p (commit p (handleTouchEnd (length (cards p)) (s, e)))"
  using nextCard_inv[OF i] prevCard_inv[OF i] i
  by (simp add: handleTouchEnd_def Let_def commit_id)

lemma fireTimer_inv:
  assumes i: "engine_inv p (s, e)"
  shows "engine_inv p (commit p (fireTimer h (s, e)))"
proof (cases "map_of (armed e) h")
  case None
  then show ?thesis using i by (simp add: fireTimer_def commit_id)
next
  case (Some t)
  then have mem: "(h, t) \<in> set (armed e)" by (rule map_of_SomeD)
  note pr = invD(1)[OF i]
  note l = timers_okD(2)[OF pr mem]
  note c = invD(2)[OF i mem]
  show ?thesis
  proof (cases t)
    case (FlipRevertTimeout d w)
    then have ft: "flipTimer s = Some h" "isFlipped s" using l by (simp_all add: timer_linked_def)
    have f: "fireTimer h (s, e) = (flipRevert w s, clearTimer (Some h) e)"
      by (simp add: fireTimer_def Some FlipRevertTimeout)
    have "timers_ok (flipRevert w s, clearTimer (Some h) e)"
      by (rule timers_ok_unflip[OF pr]) (auto simp: ft flipRevert_def Let_def)
    moreover have "deps_of p (flipRevert w s) \<noteq> deps_of p s"
      using deps_ofD(3)[of p "flipRevert w s" s] ft by (auto simp: flipRevert_def Let_def)
    ultimately show ?thesis unfolding f
      by (intro handler_commit_inv[OF i]) simp_all
  next
    case (ProgressInterval d)
    then have a: "active (length (cards p)) s" using c by (simp add: timer_current_def)
    have f: "fireTimer h (s, e) = (progressTick s, e)"
      by (simp add: fireTimer_def Some ProgressInterval)
    show ?thesis unfolding f using a
      by (intro handler_commit_inv[OF i] timers_ok_shrink[OF pr]) (simp_all add: progressTick_def)
  next
    case (AdvanceInterval d c')
    then have a: "c' = closure_of (length (cards p)) s" using c by (simp add: timer_current_def)
    have f: "fireTimer h (s, e) = nextCard (closure_of (length (cards p)) s) (s, e)"
      by (simp add: fireTimer_def Some AdvanceInterval a)
    show ?thesis unfolding f by (rule nextCard_inv[OF i])
  qed
qed

lemma step_inv:
  assumes "engine_inv p cfg"
  shows "engine_inv p (step p ev cfg)"
proof -
  obtain s e where cfg: "cfg = (s, e)" by (cases cfg)
  note i = assms[unfolded cfg]
  show ?thesis
  proof (cases ev)
    case (TimerFires h)
    then show ?thesis using fireTimer_inv[OF i] by (simp add: step_def handleEvent_def cfg)
  next
    case (User u)
    show ?thesis
    proof (cases "length (cards p) = 0")
      case True
      then show ?thesis using i by (simp add: step_def handleEvent_def cfg User commit_id)
    next
      case False
      then show ?thesis
        using nextCard_inv[OF i] prevCard_inv[OF i] cardClick_inv[OF i] playPause_inv[OF i]
          touch_inv[OF i] touchEnd_inv[OF i]
        by (cases u) (simp_all add: step_def handleEvent_def cfg User)
    qed
  qed
qed

lemma mount_inv: "engine_inv p (mount p b)"
  unfolding mount_def
  by (rule commit_inv) (simp_all add: timers_ok_def handles_ok_def init_state_def init_env_def)

lemma run_inv: "engine_inv p cfg \<Longrightarrow> engine_inv p (run p evs cfg)"
  unfolding run_def by (induction evs arbitrary: cfg) (simp_all add: step_inv)

lemma rerender_inv:
  assumes "engine_inv p cfg"
  shows "engine_inv q (rerender q cfg)"
proof -
  obtain s e where se: "cfg = (s, e)" by (cases cfg)
  note i = assms[unfolded se]
  have "engine_inv q (commit q (s, e))"
  proof (rule commit_inv[OF invD(1)[OF i]])
    assume "effectDeps e = Some (deps_of q s)"
    then have "deps_of q s = deps_of p s" using invD(4)[OF i] by simp
    moreover from this have "d_length (deps_of q s) = d_length (deps_of p s)" by simp
    then have "length (cards q) = length (cards p)" by (simp add: deps_of_def)
    ultimately show "engine_inv q (s, e)" using i by (simp add: engine_inv_def)
  qed
  then show ?thesis by (simp add: rerender_def se)
qed

lemma perform_inv:
  "engine_inv (fst pc) (snd pc) \<Longrightarrow> engine_inv (fst (perform pc a)) (snd (perform pc a))"
  by (cases pc; cases a) (simp_all add: step_inv rerender_inv)

lemma session_inv: "engine_inv (fst (session p b acts)) (snd (session p b acts))"
proof -
  have "engine_inv (fst pc) (snd pc) \<Longrightarrow>
        engine_inv (fst (foldl perform pc acts)) (snd (foldl perform pc acts))" for pc
    by (induction acts arbitrary: pc) (simp_all add: perform_inv)
  from this[of "(p, mount p b)"] show ?thesis by (simp add: session_def mount_inv)
qed

lemma session_events: "session p b (map Event evs) = (p, run p evs (mount p b))"
proof -
  have "foldl perform (p, cfg) (map Event evs) = (p, run p evs cfg)" for cfg
    by (induction evs arbitrary: cfg) (simp_all add: run_def)
  then show ?thesis by (simp add: session_def)
qed

section \<open>What the handlers do to the state\<close>

lemma js_rem_mod: "0 \<le> a \<Longrightarrow> 0 < b \<Longrightarrow> js_rem a b = a mod b"
  by (simp add: js_rem_def sgn_if)

lemma commit_state: "fst (commit p (s, e)) = s \<or> fst (commit p (s, e)) = s\<lparr>progress := 0\<rparr>"
proof (cases "effectDeps e = Some (deps_of p s)")
  case True
  then show ?thesis by (simp add: commit_def)
next
  case False
  define c1 where "c1 = (case effectDeps e of None \<Rightarrow> (s, e)
                         | Some d \<Rightarrow> effectCleanup (d_flipTimer d) (s, e))"
  have c1s: "fst c1 = s \<or> fst c1 = s\<lparr>progress := 0\<rparr>"
    using stop_state[of s e]
    by (cases "stopAutoPlay (s, e)") (auto simp: c1_def effectCleanup_def split: option.splits)
  obtain s1 e1 where c1: "c1 = (s1, e1)" by (cases c1)
  have "fst (commit p (s, e)) = fst (effectBody p (s1, e1))"
    using False by (simp add: commit_def c1_def[symmetric] c1 split: prod.splits)
  then show ?thesis using c1s effect_state[of p s1 e1] by (auto simp: c1)
qed

lemma commit_fields:
  "currentCardIndex (fst (commit p (s, e))) = currentCardIndex s"
  "isAutoPlaying (fst (commit p (s, e))) = isAutoPlaying s"
  "isFlipped (fst (commit p (s, e))) = isFlipped s"
  "flipTimer (fst (commit p (s, e))) = flipTimer s"
  "wasAutoPlayingBeforeFlip (fst (commit p (s, e))) = wasAutoPlayingBeforeFlip s"
  "touchStart (fst (commit p (s, e))) = touchStart s"
  "touchEnd (fst (commit p (s, e))) = touchEnd s"
  "progress s = 0 \<Longrightarrow> progress (fst (commit p (s, e))) = 0"
  using commit_state[of p s e] by auto

lemma resetFlip_keeps:
  "currentCardIndex (fst (resetFlip c (s, e))) = currentCardIndex s"
  "progress (fst (resetFlip c (s, e))) = progress s"
  "touchStart (fst (resetFlip c (s, e))) = touchStart s"
  "touchEnd (fst (resetFlip c (s, e))) = touchEnd s"
  by (simp_all add: resetFlip_def Let_def)

lemma nextCard_index:
  "0 < cl_length c \<Longrightarrow>
   currentCardIndex (fst (nextCard c (s, e))) = js_rem (currentCardIndex s + 1) (int (cl_length c))"
  using resetFlip_keeps(1)[of c s e]
  by (cases "resetFlip c (s, e)") (simp add: nextCard_def)

lemma prevCard_index:
  "0 < cl_length c \<Longrightarrow>
   currentCardIndex (fst (prevCard c (s, e))) =
     js_rem (currentCardIndex s - 1 + int (cl_length c)) (int (cl_length c))"
  using resetFlip_keeps(1)[of c s e]
  by (cases "resetFlip c (s, e)") (simp add: prevCard_def)

lemma nextCard_progress: "0 < cl_length c \<Longrightarrow> progress (fst (nextCard c cfg)) = 0"
  by (cases cfg; cases "resetFlip c cfg") (simp add: nextCard_def)

lemma prevCard_progress: "0 < cl_length c \<Longrightarrow> progress (fst (prevCard c cfg)) = 0"
  by (cases cfg; cases "resetFlip c cfg") (simp add: prevCard_def)

lemma step_next_index:
  assumes "0 < length (cards p)"
  shows "currentCardIndex (fst (step p (User ClickNext) cfg)) =
         js_rem (currentCardIndex (fst cfg) + 1) (int (length (cards p)))"
proof -
  obtain s e where cfg: "cfg = (s, e)" by (cases cfg)
  obtain s' e' where n: "nextCard (closure_of (length (cards p)) s) (s, e) = (s', e')"
    by (cases "nextCard (closure_of (length (cards p)) s) (s, e)")
  show ?thesis using assms nextCard_index[of "closure_of (length (cards p)) s" s e]
    by (simp add: step_def handleEvent_def cfg n commit_fields)
qed

lemma step_prev_index:
  assumes "0 < length (cards p)"
  shows "currentCardIndex (fst (step p (User ClickPrev) cfg)) =
         js_rem (currentCardIndex (fst cfg) - 1 + int (length (cards p))) (int (length (cards p)))"
proof -
  obtain s e where cfg: "cfg = (s, e)" by (cases cfg)
  obtain s' e' where n: "prevCard (closure_of (length (cards p)) s) (s, e) = (s', e')"
    by (cases "prevCard (closure_of (length (cards p)) s) (s, e)")
  show ?thesis using assms prevCard_index[of "closure_of (length (cards p)) s" s e]
    by (simp add: step_def handleEvent_def cfg n commit_fields)
qed

lemma run_Cons: "run p (ev # evs) cfg = run p evs (step p ev cfg)"
  by (simp add: run_def)

section \<open>Navigation\<close>

lemma run_next_index:
  assumes "0 < length (cards p)"
  shows "0 \<le> currentCardIndex (fst cfg) \<Longrightarrow>
         currentCardIndex (fst cfg) < int (length (cards p)) \<Longrightarrow>
         currentCardIndex (fst (run p (replicate k (User ClickNext)) cfg)) =
           (currentCardIndex (fst cfg) + int k) mod int (length (cards p))"
proof (induction k arbitrary: cfg)
  case 0
  then show ?case by (simp add: run_def)
next
  case (Suc k)
  let ?n = "int (length (cards p))"
  let ?i = "currentCardIndex (fst cfg)"
  have st: "currentCardIndex (fst (step p (User ClickNext) cfg)) = (?i + 1) mod ?n"
    using step_next_index[OF assms, of cfg] Suc.prems assms
    by (simp add: js_rem_mod)
  have r: "0 \<le> (?i + 1) mod ?n" "(?i + 1) mod ?n < ?n" using assms by simp_all
  have "currentCardIndex (fst (run p (replicate (Suc k) (User ClickNext)) cfg)) =
        ((?i + 1) mod ?n + int k) mod ?n"
    using Suc.IH[of "step p (User ClickNext) cfg"] r by (simp add: run_Cons st)
  also have "\<dots> = (?i + int (Suc k)) mod ?n"
    by (simp add: mod_add_left_eq add.assoc)
  finally show ?case .
qed

lemma run_prev_index:
  assumes "0 < length (cards p)"
  shows "0 \<le> currentCardIndex (fst cfg) \<Longrightarrow>
         currentCardIndex (fst cfg) < int (length (cards p)) \<Longrightarrow>
         currentCardIndex (fst (run p (replicate k (User ClickPrev)) cfg)) =
           (currentCardIndex (fst cfg) - int k) mod int (length (cards p))"
proof (induction k arbitrary: cfg)
  case 0
  then show ?case by (simp add: run_def)
next
  case (Suc k)
  let ?n = "int (length (cards p))"
  let ?i = "currentCardIndex (fst cfg)"
  have st: "currentCardIndex (fst (step p (User ClickPrev) cfg)) = (?i - 1) mod ?n"
    using step_prev_index[OF assms, of cfg] Suc.prems assms
    by (simp add: js_rem_mod)
  have r: "0 \<le> (?i - 1) mod ?n" "(?i - 1) mod ?n < ?n" using assms by simp_all
  have "currentCardIndex (fst (run p (replicate (Suc k) (User ClickPrev)) cfg)) =
        ((?i - 1) mod ?n - int k) mod ?n"
    using Suc.IH[of "step p (User ClickPrev) cfg"] r by (simp add: run_Cons st)
  also have "\<dots> = (?i - int (Suc k)) mod ?n"
    by (simp add: mod_diff_left_eq algebra_simps)
  finally show ?case .
qed


text \<open>
  C3. Wrap-around: with \<open>n > 0\<close> items and a current index in \<open>[0, n)\<close>, \<open>n\<close> clicks on
  "next" bring the index back to where it started, and so do \<open>n\<close> clicks on "previous".
\<close>

theorem wrap_around:
  assumes "0 < length (cards p)"
    and "0 \<le> currentCardIndex (fst cfg)"
    and "currentCardIndex (fst cfg) < int (length (cards p))"
  shows "currentCardIndex (fst (run p (replicate (length (cards p)) (User ClickNext)) cfg)) =
           currentCardIndex (fst cfg) \<and>
         currentCardIndex (fst (run p (replicate (length (cards p)) (User ClickPrev)) cfg)) =
           currentCardIndex (fst cfg)"
  using run_next_index[OF assms, of "length (cards p)"]
        run_prev_index[OF assms, of "length (cards p)"] assms(2,3)
  by simp

theorem wrap_around_witness:
  "0 < length (cards three_cards) \<and>
   0 \<le> currentCardIndex (fst (mount three_cards True)) \<and>
   currentCardIndex (fst (mount three_cards True)) < int (length (cards three_cards)) \<and>
   currentCardIndex (fst (run three_cards (replicate (length (cards three_cards)) (User ClickNext))
      (mount three_cards True))) = currentCardIndex (fst (mount three_cards True)) \<and>
   currentCardIndex (fst (run three_cards (replicate (length (cards three_cards)) (User ClickPrev))
      (mount three_cards True))) = currentCardIndex (fst (mount three_cards True))"
proof -
  have h: "0 < length (cards three_cards)"
    "0 \<le> currentCardIndex (fst (mount three_cards True))"
    "currentCardIndex (fst (mount three_cards True)) < int (length (cards three_cards))"
    by (simp_all add: three_cards_def engine_defs)
  from wrap_around[OF h] h show ?thesis by simp
qed


text \<open>
  C5. Progress reset on navigate: with at least one item, \<open>nextCard\<close> and \<open>prevCard\<close>
  leave \<open>progress = 0\<close> whatever it was before, both as the handler returns and after the
  render that follows a click on an arrow. One item is no exception.
\<close>

theorem navigate_resets_progress:
  assumes "0 < cl_length c" and "0 < length (cards p)"
  shows "progress (fst (nextCard c cfg)) = 0 \<and> progress (fst (prevCard c cfg)) = 0 \<and>
         progress (fst (step p (User ClickNext) cfg)) = 0 \<and>
         progress (fst (step p (User ClickPrev) cfg)) = 0"
proof -
  obtain s e where cfg: "cfg = (s, e)" by (cases cfg)
  let ?c = "closure_of (length (cards p)) s"
  obtain s1 e1 where n: "nextCard ?c (s, e) = (s1, e1)" by (cases "nextCard ?c (s, e)")
  obtain s2 e2 where pv: "prevCard ?c (s, e) = (s2, e2)" by (cases "prevCard ?c (s, e)")
  have "progress s1 = 0" "progress s2 = 0"
    using nextCard_progress[of ?c "(s, e)"] prevCard_progress[of ?c "(s, e)"] assms(2)
    by (simp_all add: n pv)
  then have "progress (fst (step p (User ClickNext) cfg)) = 0"
    "progress (fst (step p (User ClickPrev) cfg)) = 0"
    using assms(2) by (simp_all add: step_def handleEvent_def cfg n pv commit_fields)
  then show ?thesis
    using nextCard_progress[OF assms(1)] prevCard_progress[OF assms(1)] by simp
qed

theorem navigate_resets_progress_witness:
  "0 < cl_length (closure_of 1 (init_state True)) \<and> 0 < length (cards one_card) \<and>
   progress (fst (run one_card [TimerFires 1, TimerFires 1] (mount one_card True))) = 2 \<and>
   progress (fst (nextCard (closure_of 1 (init_state True))
      (run one_card [TimerFires 1, TimerFires 1] (mount one_card True)))) = 0 \<and>
   progress (fst (prevCard (closure_of 1 (init_state True))
      (run one_card [TimerFires 1, TimerFires 1] (mount one_card True)))) = 0 \<and>
   progress (fst (step one_card (User ClickNext)
      (run one_card [TimerFires 1, TimerFires 1] (mount one_card True)))) = 0 \<and>
   progress (fst (step one_card (User ClickPrev)
      (run one_card [TimerFires 1, TimerFires 1] (mount one_card True)))) = 0"
proof -
  have h: "0 < cl_length (closure_of 1 (init_state True))" "0 < length (cards one_card)"
    by (simp_all add: one_card_def)
  have b: "progress (fst (run one_card [TimerFires 1, TimerFires 1] (mount one_card True))) = 2"
    by (simp add: one_card_def engine_defs)
  from navigate_resets_progress[OF h] h b show ?thesis by simp
qed

lemma handleEvent_index:
  assumes i: "engine_inv p (s, e)" and n: "0 < length (cards p)"
    and r: "0 \<le> currentCardIndex s" "currentCardIndex s < int (length (cards p))"
  shows "0 \<le> currentCardIndex (fst (handleEvent (length (cards p)) ev (s, e))) \<and>
         currentCardIndex (fst (handleEvent (length (cards p)) ev (s, e))) < int (length (cards p))"
proof -
  let ?n = "length (cards p)"
  let ?c = "closure_of ?n s"
  have nx: "0 \<le> currentCardIndex (fst (nextCard ?c (s, e))) \<and>
            currentCardIndex (fst (nextCard ?c (s, e))) < int ?n"
    using nextCard_index[of ?c s e] n r by (simp add: js_rem_mod)
  have pv: "0 \<le> currentCardIndex (fst (prevCard ?c (s, e))) \<and>
            currentCardIndex (fst (prevCard ?c (s, e))) < int ?n"
    using prevCard_index[of ?c s e] n r by (simp add: js_rem_mod)
  show ?thesis
  proof (cases ev)
    case (User u)
    show ?thesis
    proof (cases u)
      case ClickCard
      then show ?thesis using r n
        by (auto simp: handleEvent_def User handleCardClick_def Let_def setTimer_def)
    next
      case TouchEnd
      then show ?thesis using r n nx pv
        by (simp add: handleEvent_def User handleTouchEnd_def Let_def)
    qed (use r n nx pv in \<open>simp_all add: handleEvent_def User handlePlayPauseClick_def
          handleTouchStart_def handleTouchMove_def\<close>)
  next
    case (TimerFires h)
    show ?thesis
    proof (cases "map_of (armed e) h")
      case None
      then show ?thesis using r by (simp add: handleEvent_def TimerFires fireTimer_def)
    next
      case (Some t)
      then have mem: "(h, t) \<in> set (armed e)" by (rule map_of_SomeD)
      show ?thesis
      proof (cases t)
        case (AdvanceInterval d c)
        then have "c = ?c" using invD(2)[OF i mem] by (simp add: timer_current_def)
        then show ?thesis using nx
          by (simp add: handleEvent_def TimerFires fireTimer_def Some AdvanceInterval)
      qed (use r in \<open>simp_all add: handleEvent_def TimerFires fireTimer_def Some
            flipRevert_def progressTick_def Let_def\<close>)
    qed
  qed
qed

lemma step_index:
  assumes "engine_inv p cfg" and "0 < length (cards p)" and "index_ok p cfg"
  shows "index_ok p (step p ev cfg)"
proof -
  obtain s e where cfg: "cfg = (s, e)" by (cases cfg)
  obtain s' e' where h: "handleEvent (length (cards p)) ev (s, e) = (s', e')"
    by (cases "handleEvent (length (cards p)) ev (s, e)")
  show ?thesis
    using handleEvent_index[of p s e ev] assms
    by (simp add: index_ok_def cfg step_def h commit_fields)
qed

lemma run_index:
  assumes "0 < length (cards p)"
  shows "engine_inv p cfg \<Longrightarrow> index_ok p cfg \<Longrightarrow> index_ok p (run p evs cfg)"
  by (induction evs arbitrary: cfg) (simp_all add: run_def step_inv step_index[OF _ assms])

lemma mount_index: "0 < length (cards p) \<Longrightarrow> index_ok p (mount p b)"
  by (simp add: index_ok_def mount_def commit_fields init_state_def)

text \<open>
  C4. Index range: with \<open>n > 0\<close> items, after mounting (index 0) and any sequence of
  events (clicks on the arrows, the card and the play button, touches, and timers that
  fire) the current index is in \<open>[0, n)\<close>.
\<close>

theorem index_in_range:
  assumes "0 < length (cards p)"
  shows "0 \<le> currentCardIndex (fst (run p evs (mount p b))) \<and>
         currentCardIndex (fst (run p evs (mount p b))) < int (length (cards p))"
  using run_index[OF assms mount_inv mount_index[OF assms]]
  by (simp add: index_ok_def)

theorem index_in_range_witness:
  "0 < length (cards three_cards) \<and>
   0 \<le> currentCardIndex (fst (run three_cards [User ClickPrev, User ClickCard] (mount three_cards True))) \<and>
   currentCardIndex (fst (run three_cards [User ClickPrev, User ClickCard] (mount three_cards True)))
     < int (length (cards three_cards))"
proof -
  have h: "0 < length (cards three_cards)" by (simp add: three_cards_def)
  from index_in_range[OF h] h show ?thesis by simp
qed

text \<open>
  C10. Pausing clears the progress bar: in every state reached from mounting by any
  sequence of events, and also when the collaborator changes the props in between,
  \<open>progress = 0\<close> whenever autoplay is off or the card is flipped.
\<close>

theorem not_playing_progress_zero:
  "(\<not> isAutoPlaying (fst (snd (session p b acts))) \<or> isFlipped (fst (snd (session p b acts)))
      \<longrightarrow> progress (fst (snd (session p b acts))) = 0) \<and>
   (\<not> isAutoPlaying (fst (run p evs (mount p b))) \<or> isFlipped (fst (run p evs (mount p b)))
      \<longrightarrow> progress (fst (run p evs (mount p b))) = 0)"
proof -
  have g: "\<not> isAutoPlaying (fst (snd (session p b acts))) \<or> isFlipped (fst (snd (session p b acts)))
      \<longrightarrow> progress (fst (snd (session p b acts))) = 0" for acts
  proof -
    obtain q s e where r: "session p b acts = (q, s, e)" by (cases "session p b acts") auto
    have "engine_inv q (s, e)" using session_inv[of p b acts] by (simp add: r)
    from invD(3)[OF this] show ?thesis by (auto simp: r active_def)
  qed
  from g[of acts] g[of "map Event evs"] show ?thesis by (simp add: session_events)
qed

theorem not_playing_progress_zero_witness:
  "progress (fst (run three_cards [TimerFires 1, TimerFires 1] (mount three_cards True))) = 2 \<and>
   \<not> isAutoPlaying (fst (run three_cards [TimerFires 1, TimerFires 1, User ClickPlayPause]
        (mount three_cards True))) \<and>
   progress (fst (run three_cards [TimerFires 1, TimerFires 1, User ClickPlayPause]
        (mount three_cards True))) = 0 \<and>
   isFlipped (fst (snd (session three_cards True
        [Event (TimerFires 1), NewProps one_card, Event (User ClickCard)]))) \<and>
   progress (fst (snd (session three_cards True
        [Event (TimerFires 1), NewProps one_card, Event (User ClickCard)]))) = 0"
proof -
  have b: "progress (fst (run three_cards [TimerFires 1, TimerFires 1] (mount three_cards True))) = 2"
    by (simp add: three_cards_def engine_defs)
  have h: "\<not> isAutoPlaying (fst (run three_cards [TimerFires 1, TimerFires 1, User ClickPlayPause]
        (mount three_cards True)))"
    by (simp add: three_cards_def engine_defs)
  have h2: "isFlipped (fst (snd (session three_cards True
        [Event (TimerFires 1), NewProps one_card, Event (User ClickCard)])))"
    by (simp add: three_cards_def one_card_def session_def engine_defs)
  from not_playing_progress_zero[where p=three_cards and b=True and
      acts="[Event (TimerFires 1), NewProps one_card, Event (User ClickCard)]" and
      evs="[TimerFires 1, TimerFires 1, User ClickPlayPause]"]
    h h2 b show ?thesis by simp
qed

text \<open>
  C2. Navigating while flipped: in every state reached from mounting in which the card is
  flipped (with at least one item), a click on "next" or "previous" clears \<open>isFlipped\<close>
  and the timer handle, sets \<open>isAutoPlaying\<close> to true when
  \<open>wasAutoPlayingBeforeFlip\<close> was true and leaves it as it was otherwise, clears
  \<open>wasAutoPlayingBeforeFlip\<close>, moves the index by one with wrap-around, and leaves no
  flip-revert timeout armed, so none can fire later.
\<close>

theorem navigate_resolves_flip:
  assumes n: "0 < length (cards p)"
    and cfg: "cfg = run p evs (mount p b)"
    and fl: "isFlipped (fst cfg)"
  shows "\<not> isFlipped (fst (step p (User ClickNext) cfg)) \<and>
         flipTimer (fst (step p (User ClickNext) cfg)) = None \<and>
         isAutoPlaying (fst (step p (User ClickNext) cfg)) =
           (wasAutoPlayingBeforeFlip (fst cfg) \<or> isAutoPlaying (fst cfg)) \<and>
         \<not> wasAutoPlayingBeforeFlip (fst (step p (User ClickNext) cfg)) \<and>
         currentCardIndex (fst (step p (User ClickNext) cfg)) =
           (currentCardIndex (fst cfg) + 1) mod int (length (cards p)) \<and>
         list_all (\<lambda>x. \<not> is_flip x) (armed (snd (step p (User ClickNext) cfg))) \<and>
         \<not> isFlipped (fst (step p (User ClickPrev) cfg)) \<and>
         flipTimer (fst (step p (User ClickPrev) cfg)) = None \<and>
         isAutoPlaying (fst (step p (User ClickPrev) cfg)) =
           (wasAutoPlayingBeforeFlip (fst cfg) \<or> isAutoPlaying (fst cfg)) \<and>
         \<not> wasAutoPlayingBeforeFlip (fst (step p (User ClickPrev) cfg)) \<and>
         currentCardIndex (fst (step p (User ClickPrev) cfg)) =
           (currentCardIndex (fst cfg) - 1) mod int (length (cards p)) \<and>
         list_all (\<lambda>x. \<not> is_flip x) (armed (snd (step p (User ClickPrev) cfg)))"
proof -
  obtain s e where se: "cfg = (s, e)" by (cases cfg)
  have i: "engine_inv p (s, e)" using run_inv[OF mount_inv, of p evs b] cfg se by simp
  have "index_ok p cfg" unfolding cfg by (rule run_index[OF n mount_inv mount_index[OF n]])
  then have ix: "0 \<le> currentCardIndex s" "currentCardIndex s < int (length (cards p))"
    by (simp_all add: index_ok_def se)
  have fs: "isFlipped s" using fl se by simp
  let ?c = "closure_of (length (cards p)) s"
  obtain s1 e1 where r: "resetFlip ?c (s, e) = (s1, e1)" by (cases "resetFlip ?c (s, e)")
  note f = resetFlip_flipped[OF fs r]
  have general: "\<not> isFlipped (fst (step p ev cfg)) \<and>
         flipTimer (fst (step p ev cfg)) = None \<and>
         isAutoPlaying (fst (step p ev cfg)) =
           (wasAutoPlayingBeforeFlip (fst cfg) \<or> isAutoPlaying (fst cfg)) \<and>
         \<not> wasAutoPlayingBeforeFlip (fst (step p ev cfg)) \<and>
         list_all (\<lambda>x. \<not> is_flip x) (armed (snd (step p ev cfg)))"
    if ev: "ev = User ClickNext \<or> ev = User ClickPrev" for ev
  proof -
    obtain s' e' where h: "handleEvent (length (cards p)) ev (s, e) = (s', e')"
      by (cases "handleEvent (length (cards p)) ev (s, e)")
    have s': "\<not> isFlipped s'" "flipTimer s' = None" "\<not> wasAutoPlayingBeforeFlip s'"
      "isAutoPlaying s' = (wasAutoPlayingBeforeFlip s \<or> isAutoPlaying s)"
      using h ev n f by (auto simp: handleEvent_def nextCard_def prevCard_def r)
    obtain s2 e2 where st: "step p ev (s, e) = (s2, e2)" by (cases "step p ev (s, e)")
    have s2: "\<not> isFlipped s2" "flipTimer s2 = None" "\<not> wasAutoPlayingBeforeFlip s2"
      "isAutoPlaying s2 = (wasAutoPlayingBeforeFlip s \<or> isAutoPlaying s)"
      using st s' commit_fields[where p=p and s=s' and e=e'] by (simp_all add: step_def h)
    have "engine_inv p (s2, e2)" using step_inv[OF i, of ev] st by simp
    then have "\<And>x. x \<in> set (armed e2) \<Longrightarrow> \<not> is_flip x"
      using timers_ok_no_flip[OF invD(1) s2(1)] by blast
    then show ?thesis using s2 by (simp add: st se list_all_iff)
  qed
  have "currentCardIndex (fst (step p (User ClickNext) cfg)) =
          (currentCardIndex (fst cfg) + 1) mod int (length (cards p))"
    using step_next_index[OF n, of cfg] ix n by (simp add: se js_rem_mod)
  moreover have "currentCardIndex (fst (step p (User ClickPrev) cfg)) =
          (currentCardIndex (fst cfg) - 1) mod int (length (cards p))"
    using step_prev_index[OF n, of cfg] ix n by (simp add: se js_rem_mod)
  ultimately show ?thesis
    using general[of "User ClickNext"] general[of "User ClickPrev"] by simp
qed


theorem navigate_resolves_flip_witness:
  "0 < length (cards three_cards) \<and>
   isFlipped (fst (run three_cards [User ClickCard] (mount three_cards True))) \<and>
   wasAutoPlayingBeforeFlip (fst (run three_cards [User ClickCard] (mount three_cards True))) \<and>
   armed (snd (run three_cards [User ClickCard] (mount three_cards True))) =
     [(3, FlipRevertTimeout 5000 False)] \<and>
   \<not> isFlipped (fst (step three_cards (User ClickNext)
      (run three_cards [User ClickCard] (mount three_cards True)))) \<and>
   isAutoPlaying (fst (step three_cards (User ClickNext)
      (run three_cards [User ClickCard] (mount three_cards True)))) \<and>
   currentCardIndex (fst (step three_cards (User ClickNext)
      (run three_cards [User ClickCard] (mount three_cards True)))) = 1 \<and>
   list_all (\<lambda>x. \<not> is_flip x) (armed (snd (step three_cards (User ClickNext)
      (run three_cards [User ClickCard] (mount three_cards True)))))"
proof -
  let ?cfg = "run three_cards [User ClickCard] (mount three_cards True)"
  have h: "0 < length (cards three_cards)" "isFlipped (fst ?cfg)"
    by (simp_all add: three_cards_def engine_defs)
  have b: "wasAutoPlayingBeforeFlip (fst ?cfg)" "currentCardIndex (fst ?cfg) = 0"
    "armed (snd ?cfg) = [(3, FlipRevertTimeout 5000 False)]" "length (cards three_cards) = 3"
    by (simp_all add: three_cards_def engine_defs)
  from navigate_resolves_flip[OF h(1) refl h(2)] h b show ?thesis by simp
qed


section \<open>Flipping\<close>

text \<open>
  In every state reached from mounting, an armed flip-revert timeout has closed over
  \<open>wasAutoPlayingBeforeFlip = false\<close> (the card can only be flipped from a render in
  which it was not flipped, and there the flag is false), so when it fires it leaves
  \<open>isAutoPlaying\<close> as it is.
\<close>

lemma flip_revert_never_resumes:
  assumes "cfg = run p evs (mount p b)"
    and "map_of (armed (snd cfg)) h = Some (FlipRevertTimeout d w)"
  shows "\<not> w \<and> isAutoPlaying (fst (step p (TimerFires h) cfg)) = isAutoPlaying (fst cfg)"
proof -
  obtain s e where se: "cfg = (s, e)" by (cases cfg)
  have i: "engine_inv p (s, e)" using run_inv[OF mount_inv, of p evs b] assms(1) se by simp
  have mem: "(h, FlipRevertTimeout d w) \<in> set (armed e)"
    using assms(2) se by (auto dest: map_of_SomeD)
  have w: "\<not> w" using timers_okD(2)[OF invD(1)[OF i] mem] by (simp add: timer_linked_def)
  have "isAutoPlaying (fst (step p (TimerFires h) cfg)) = isAutoPlaying (flipRevert w s)"
    using assms(2) se
    by (simp add: step_def handleEvent_def fireTimer_def
        commit_fields[where p=p and s="flipRevert w s"])
  then show ?thesis using w by (simp add: flipRevert_def Let_def se)
qed

text \<open>
  C1. Flip during autoplay. Mounted with three cards and autoplay on, the card is clicked:
  autoplay is paused, the card is flipped, the advance and progress intervals are
  cancelled and the 5000 ms revert timeout is the only timer armed. When that timeout
  fires the card is flipped back and the index is still 0, but \<open>isAutoPlaying\<close> stays
  false: autoplay is not resumed.
\<close>

theorem flip_revert_does_not_resume:
  "isAutoPlaying (fst (mount three_cards True)) \<and>
   \<not> isFlipped (fst (mount three_cards True)) \<and>
   currentCardIndex (fst (mount three_cards True)) = 0 \<and>
   \<not> isAutoPlaying (fst (step three_cards (User ClickCard) (mount three_cards True))) \<and>
   isFlipped (fst (step three_cards (User ClickCard) (mount three_cards True))) \<and>
   wasAutoPlayingBeforeFlip (fst (step three_cards (User ClickCard) (mount three_cards True))) \<and>
   armed (snd (step three_cards (User ClickCard) (mount three_cards True))) =
     [(3, FlipRevertTimeout 5000 False)] \<and>
   \<not> isFlipped (fst (run three_cards [User ClickCard, TimerFires 3] (mount three_cards True))) \<and>
   currentCardIndex (fst (run three_cards [User ClickCard, TimerFires 3] (mount three_cards True))) = 0 \<and>
   \<not> isAutoPlaying (fst (run three_cards [User ClickCard, TimerFires 3] (mount three_cards True))) \<and>
   armed (snd (run three_cards [User ClickCard, TimerFires 3] (mount three_cards True))) = []"
  by (simp add: three_cards_def engine_defs)

text \<open>The sibling path: a second click on the card does resume autoplay.\<close>

lemma manual_unflip_resumes:
  "isAutoPlaying (fst (run three_cards [User ClickCard, User ClickCard] (mount three_cards True))) \<and>
   \<not> isFlipped (fst (run three_cards [User ClickCard, User ClickCard] (mount three_cards True)))"
  by (simp add: three_cards_def engine_defs)

section \<open>Gestures\<close>

text \<open>With both coordinates recorded and neither of them 0 the threshold is as documented.\<close>

lemma swipe_threshold:
  assumes "touchStart s = Some a" and "touchEnd s = Some b" and "a \<noteq> 0" and "b \<noteq> 0"
  shows "handleTouchEnd n (s, e) =
           (if a - b > 50 then nextCard (closure_of n s) (s, e)
            else if a - b < - 50 then prevCard (closure_of n s) (s, e)
            else (s, e))"
  using assms by (simp add: handleTouchEnd_def falsy_coord_def Let_def)

text \<open>
  C7. Gesture threshold. A drag of 51 px from \<open>x = 51\<close> to the left edge \<open>x = 0\<close> has
  distance \<open>51 > 50\<close> and navigates nowhere, because \<open>!touchEnd\<close> holds for the
  coordinate 0; the same drag one pixel to the right, from 52 to 1, goes to the next card.
\<close>

theorem swipe_to_zero_ignored:
  "touchStart (fst (run three_cards [User (TouchStart 51), User (TouchMove 0)]
      (mount three_cards True))) = Some 51 \<and>
   touchEnd (fst (run three_cards [User (TouchStart 51), User (TouchMove 0)]
      (mount three_cards True))) = Some 0 \<and>
   handleTouchEnd 3 (run three_cards [User (TouchStart 51), User (TouchMove 0)]
      (mount three_cards True)) =
     run three_cards [User (TouchStart 51), User (TouchMove 0)] (mount three_cards True) \<and>
   currentCardIndex (fst (run three_cards [User (TouchStart 51), User (TouchMove 0), User TouchEnd]
      (mount three_cards True))) = 0 \<and>
   currentCardIndex (fst (run three_cards [User (TouchStart 52), User (TouchMove 1), User TouchEnd]
      (mount three_cards True))) = 1"
  by (simp add: three_cards_def engine_defs)

text \<open>
  C8, as claimed: touch-end discards the coordinates. It does not: after a gesture of
  20 px, below the threshold, both are still recorded, and a second touch-end without a
  new touch-start reads them again (here a 60 px swipe navigates twice).
\<close>

theorem touch_end_keeps_coordinates:
  "touchStart (fst (run three_cards [User (TouchStart 100), User (TouchMove 80), User TouchEnd]
      (mount three_cards True))) = Some 100 \<and>
   touchEnd (fst (run three_cards [User (TouchStart 100), User (TouchMove 80), User TouchEnd]
      (mount three_cards True))) = Some 80 \<and>
   currentCardIndex (fst (run three_cards
      [User (TouchStart 100), User (TouchMove 40), User TouchEnd, User TouchEnd]
      (mount three_cards True))) = 2"
  by (simp add: three_cards_def engine_defs)

text \<open>
  C8, amended: touch-end leaves both recorded coordinates as they are; it is touch-start
  that discards them (the end coordinate is cleared, the start coordinate overwritten),
  so what a gesture that begins with touch-start does is independent of the coordinates
  an earlier gesture left behind.
\<close>

theorem touch_start_discards_coordinates:
  "touchStart (fst (handleTouchEnd n cfg)) = touchStart (fst cfg) \<and>
   touchEnd (fst (handleTouchEnd n cfg)) = touchEnd (fst cfg) \<and>
   handleTouchStart x (s\<lparr>touchStart := a, touchEnd := b\<rparr>) = handleTouchStart x s \<and>
   touchStart (handleTouchStart x s) = Some x \<and>
   touchEnd (handleTouchStart x s) = None"
proof -
  obtain s0 e0 where cfg: "cfg = (s0, e0)" by (cases cfg)
  let ?c = "closure_of n s0"
  have "touchStart (fst (nextCard ?c (s0, e0))) = touchStart s0"
    "touchEnd (fst (nextCard ?c (s0, e0))) = touchEnd s0"
    "touchStart (fst (prevCard ?c (s0, e0))) = touchStart s0"
    "touchEnd (fst (prevCard ?c (s0, e0))) = touchEnd s0"
    using resetFlip_keeps(3,4)[of ?c s0 e0]
    by (cases "resetFlip ?c (s0, e0)"; simp add: nextCard_def prevCard_def)+
  then show ?thesis
    by (simp add: cfg handleTouchEnd_def Let_def handleTouchStart_def)
qed

theorem touch_start_discards_coordinates_witness:
  "touchStart (fst (handleTouchEnd 3 (run three_cards [User (TouchStart 100), User (TouchMove 80)]
      (mount three_cards True)))) = Some 100 \<and>
   touchEnd (fst (handleTouchEnd 3 (run three_cards [User (TouchStart 100), User (TouchMove 80)]
      (mount three_cards True)))) = Some 80 \<and>
   handleTouchStart 7 ((init_state True)\<lparr>touchStart := Some 100, touchEnd := Some 80\<rparr>) =
     handleTouchStart 7 (init_state True) \<and>
   touchStart (handleTouchStart 7 (init_state True)) = Some 7 \<and>
   touchEnd (handleTouchStart 7 (init_state True)) = None"
proof -
  have b: "touchStart (fst (run three_cards [User (TouchStart 100), User (TouchMove 80)]
      (mount three_cards True))) = Some 100"
    "touchEnd (fst (run three_cards [User (TouchStart 100), User (TouchMove 80)]
      (mount three_cards True))) = Some 80"
    by (simp_all add: three_cards_def engine_defs)
  from touch_start_discards_coordinates[where n=3 and x=7 and s="init_state True"
      and a="Some 100" and b="Some 80" and
      cfg="run three_cards [User (TouchStart 100), User (TouchMove 80)] (mount three_cards True)"] b
  show ?thesis by simp
qed

section \<open>Replacing the item sequence\<close>

lemma cleanup_disarms:
  assumes "timers_ok (s, e)"
  shows "effectCleanup (flipTimer s) (s, e) = (s\<lparr>progress := 0\<rparr>, e\<lparr>armed := []\<rparr>)"
proof -
  obtain s1 e1 where st: "stopAutoPlay (s, e) = (s1, e1)" by (cases "stopAutoPlay (s, e)")
  have s1: "s1 = s\<lparr>progress := 0\<rparr>" using stop_state[of s e] st by simp
  let ?e2 = "clearIfSet (flipTimer s) e1"
  have "set (armed ?e2) = {}"
  proof (rule ccontr)
    assume "set (armed ?e2) \<noteq> {}"
    then obtain x where x: "x \<in> set (armed ?e2)" by (cases "armed ?e2") auto
    then have x1: "x \<in> set (armed e1)" and ne: "\<not> (truthy (flipTimer s) \<and> Some (fst x) = flipTimer s)"
      by (simp_all add: clearIfSet_armed)
    have fx: "is_flip x" using stop_flips[OF assms, of x] x1 st by simp
    have xe: "x \<in> set (armed e)" using x1 stop_env(5)[of s e] st by simp
    have "flipTimer s = Some (fst x)" by (rule timers_ok_flip_handle[OF assms xe fx])
    moreover have "0 < fst x" by (rule timers_okD(3)[OF assms xe])
    ultimately show False using ne by (simp add: truthy_def)
  qed
  then have a: "armed ?e2 = []" by simp
  have "?e2 = e\<lparr>armed := []\<rparr>"
    using a stop_env(1-4)[of s e] st by (intro env.equality) simp_all
  then show ?thesis by (simp add: effectCleanup_def st s1)
qed

lemma effect_from_disarmed:
  "effectBody p (s, e\<lparr>armed := []\<rparr>) =
     (s\<lparr>progress := 0\<rparr>,
      if active (length (cards p)) s
      then e\<lparr>nextHandle := Suc (Suc (nextHandle e)),
             armed := [(nextHandle e, ProgressInterval (tickInterval p * 1000 div 100)),
                       (Suc (nextHandle e),
                        AdvanceInterval (tickInterval p * 1000) (closure_of (length (cards p)) s))],
             intervalRef := Some (Suc (nextHandle e)),
             progressRef := Some (nextHandle e)\<rparr>
      else e\<lparr>armed := []\<rparr>)"
  by (simp add: effectBody_def active_def startAutoPlay_def stopAutoPlay_def Let_def
      setTimer_def clearIfSet_def clearTimer_def)

text \<open>
  C9, as claimed: the index is clamped when the sequence is replaced. It is not: with the
  index at 2 of three cards, a replacement by a one-card sequence leaves the index at 2,
  where there is no card.
\<close>

theorem replacement_does_not_clamp:
  "currentCardIndex (fst (run three_cards [User ClickPrev] (mount three_cards True))) = 2 \<and>
   currentCardIndex (fst (rerender one_card
      (run three_cards [User ClickPrev] (mount three_cards True)))) = 2 \<and>
   currentCard (cards one_card) (fst (rerender one_card
      (run three_cards [User ClickPrev] (mount three_cards True)))) = None"
  by (simp add: three_cards_def one_card_def engine_defs)

text \<open>
  C9, amended: when the item sequence is replaced by one of another length, in any state
  reached from mounting, the index is left as it is (not clamped), \<open>progress\<close> is reset
  to 0, every armed timer is cancelled, the flip-revert timeout included, and the advance
  and progress intervals are armed anew exactly when autoplay is on, the card is not
  flipped and the new sequence is not empty. A replacement that keeps the length and the
  tick interval changes nothing.
\<close>

theorem replacement_resets_timers:
  assumes "cfg = run p evs (mount p b)"
  shows "(length (cards q) \<noteq> length (cards p) \<longrightarrow>
            currentCardIndex (fst (rerender q cfg)) = currentCardIndex (fst cfg) \<and>
            progress (fst (rerender q cfg)) = 0 \<and>
            armed (snd (rerender q cfg)) =
              (if active (length (cards q)) (fst cfg)
               then [(nextHandle (snd cfg), ProgressInterval (tickInterval q * 1000 div 100)),
                     (Suc (nextHandle (snd cfg)),
                      AdvanceInterval (tickInterval q * 1000)
                        (closure_of (length (cards q)) (fst cfg)))]
               else [])) \<and>
         (length (cards q) = length (cards p) \<and> tickInterval q = tickInterval p \<longrightarrow>
            rerender q cfg = cfg)"
proof -
  obtain s e where se: "cfg = (s, e)" by (cases cfg)
  have i: "engine_inv p (s, e)" using run_inv[OF mount_inv, of p evs b] assms se by simp
  note d = invD(4)[OF i]
  have same: "rerender q cfg = cfg"
    if "length (cards q) = length (cards p)" "tickInterval q = tickInterval p"
  proof -
    have "deps_of q s = deps_of p s" using that by (simp add: deps_of_def)
    then show ?thesis using d by (simp add: rerender_def commit_def se)
  qed
  have other: "currentCardIndex (fst (rerender q cfg)) = currentCardIndex (fst cfg) \<and>
            progress (fst (rerender q cfg)) = 0 \<and>
            armed (snd (rerender q cfg)) =
              (if active (length (cards q)) (fst cfg)
               then [(nextHandle (snd cfg), ProgressInterval (tickInterval q * 1000 div 100)),
                     (Suc (nextHandle (snd cfg)),
                      AdvanceInterval (tickInterval q * 1000)
                        (closure_of (length (cards q)) (fst cfg)))]
               else [])"
    if ne: "length (cards q) \<noteq> length (cards p)"
  proof -
    have "d_length (deps_of q s) \<noteq> d_length (deps_of p s)" using ne by (simp add: deps_of_def)
    then have dn: "deps_of p s \<noteq> deps_of q s" by auto
    have fl: "d_flipTimer (deps_of p s) = flipTimer s" by (simp add: deps_of_def)
    have cl: "closure_of (length (cards q)) (s\<lparr>progress := 0\<rparr>) = closure_of (length (cards q)) s"
      by (simp add: closure_of_def)
    have ac: "active (length (cards q)) (s\<lparr>progress := 0\<rparr>) = active (length (cards q)) s"
      by (simp add: active_def)
    show ?thesis
      using dn
      by (simp add: rerender_def commit_def se d fl cleanup_disarms[OF invD(1)[OF i]]
          effect_from_disarmed cl ac)
  qed
  show ?thesis using same other by blast
qed


theorem replacement_resets_timers_witness:
  "length (cards one_card) \<noteq> length (cards three_cards) \<and>
   armed (snd (run three_cards [User ClickPrev, User ClickCard] (mount three_cards True))) =
     [(5, FlipRevertTimeout 5000 False)] \<and>
   \<not> active (length (cards one_card))
      (fst (run three_cards [User ClickPrev, User ClickCard] (mount three_cards True))) \<and>
   currentCardIndex (fst (rerender one_card
      (run three_cards [User ClickPrev, User ClickCard] (mount three_cards True)))) = 2 \<and>
   progress (fst (rerender one_card
      (run three_cards [User ClickPrev, User ClickCard] (mount three_cards True)))) = 0 \<and>
   armed (snd (rerender one_card
      (run three_cards [User ClickPrev, User ClickCard] (mount three_cards True)))) = [] \<and>
   length (cards three_cards) = length (cards three_cards) \<and>
   tickInterval three_cards = tickInterval three_cards \<and>
   rerender three_cards (run three_cards [User ClickPrev, User ClickCard] (mount three_cards True)) =
     run three_cards [User ClickPrev, User ClickCard] (mount three_cards True)"
proof -
  let ?cfg = "run three_cards [User ClickPrev, User ClickCard] (mount three_cards True)"
  have h: "length (cards one_card) \<noteq> length (cards three_cards)"
    by (simp add: one_card_def three_cards_def)
  have b: "armed (snd ?cfg) = [(5, FlipRevertTimeout 5000 False)]"
    "\<not> active (length (cards one_card)) (fst ?cfg)" "currentCardIndex (fst ?cfg) = 2"
    by (simp_all add: one_card_def three_cards_def active_def engine_defs)
  from replacement_resets_timers[of ?cfg three_cards "[User ClickPrev, User ClickCard]" True one_card]
       replacement_resets_timers[of ?cfg three_cards "[User ClickPrev, User ClickCard]" True three_cards]
       h b
  show ?thesis by simp
qed

section \<open>The empty sequence\<close>

lemma empty_run:
  assumes "cards p = []"
  shows "run p evs (mount p b) = mount p b"
proof -
  have m: "mount p b = (init_state b, init_env\<lparr>effectDeps := Some (deps_of p (init_state b))\<rparr>)"
    using assms by (simp add: engine_defs)
  have i: "engine_inv p (mount p b)" by (rule mount_inv)
  have st: "step p ev (mount p b) = mount p b" for ev
  proof (cases ev)
    case (User u)
    then show ?thesis using i assms
      by (cases "mount p b") (simp add: step_def handleEvent_def commit_id)
  next
    case (TimerFires h)
    then show ?thesis using i
      by (simp add: m step_def handleEvent_def fireTimer_def init_env_def commit_id[unfolded m])
  qed
  show ?thesis by (induction evs) (simp_all add: run_def st)
qed

lemma step_empty:
  assumes i: "engine_inv p cfg" and c: "cards p = []" and a: "armed (snd cfg) = []"
  shows "step p ev cfg = cfg"
proof -
  obtain s e where se: "cfg = (s, e)" by (cases cfg)
  note i' = i[unfolded se]
  show ?thesis
  proof (cases ev)
    case (User u)
    then show ?thesis using c by (simp add: se step_def handleEvent_def commit_id[OF i'])
  next
    case (TimerFires h)
    then show ?thesis using a
      by (simp add: se step_def handleEvent_def fireTimer_def commit_id[OF i'])
  qed
qed

lemma rerender_empty:
  assumes i: "engine_inv p (s, e)" and a: "cards p = [] \<longrightarrow> armed e = []" and q: "cards q = []"
  shows "armed (snd (rerender q (s, e))) = []"
proof (cases "effectDeps e = Some (deps_of q s)")
  case True
  then have "d_length (deps_of q s) = d_length (deps_of p s)" using invD(4)[OF i] by simp
  then have "cards p = []" using q by (simp add: deps_of_def)
  then show ?thesis using a True by (simp add: rerender_def commit_def)
next
  case False
  have d: "effectDeps e = Some (deps_of p s)" by (rule invD(4)[OF i])
  have fl: "d_flipTimer (deps_of p s) = flipTimer s" by (simp add: deps_of_def)
  have na: "\<not> active (length (cards q)) (s\<lparr>progress := 0\<rparr>)" using q by (simp add: active_def)
  show ?thesis using False
    by (simp add: rerender_def commit_def d fl cleanup_disarms[OF invD(1)[OF i]]
        effect_from_disarmed na)
qed

lemma mount_empty: "cards p = [] \<Longrightarrow> armed (snd (mount p b)) = []"
  by (simp add: engine_defs)

lemma perform_empty:
  assumes "engine_inv (fst pc) (snd pc)" and "empty_disarmed pc"
  shows "empty_disarmed (perform pc a)"
proof -
  obtain p s e where pc: "pc = (p, s, e)" by (cases pc) auto
  show ?thesis
  proof (cases a)
    case (Event ev)
    show ?thesis
    proof (cases "cards p = []")
      case True
      then have "step p ev (s, e) = (s, e)" using assms by (intro step_empty) (simp_all add: pc empty_disarmed_def)
      then show ?thesis using assms(2) by (simp add: pc Event empty_disarmed_def)
    next
      case False
      then show ?thesis by (simp add: pc Event empty_disarmed_def)
    qed
  next
    case (NewProps q)
    show ?thesis using assms rerender_empty[of p s e q]
      by (simp add: pc NewProps empty_disarmed_def)
  qed
qed

lemma session_empty: "empty_disarmed (session p b acts)"
proof -
  have "engine_inv (fst pc) (snd pc) \<Longrightarrow> empty_disarmed pc \<Longrightarrow>
        empty_disarmed (foldl perform pc acts)" for pc
    by (induction acts arbitrary: pc) (simp_all add: perform_inv perform_empty)
  from this[of "(p, mount p b)"] show ?thesis
    by (simp add: session_def mount_inv empty_disarmed_def mount_empty)
qed

text \<open>
  C6. Empty sequence: while the item sequence is empty the component reports no current
  card, every click and touch leaves the state and the timers exactly as they are (the
  placeholder it renders carries no handler), and no timer is armed. This holds at any
  point of a session, whatever events and prop changes came before; in particular, mounted
  with an empty sequence the component stays in its initial state whatever events occur.
\<close>

theorem empty_sequence_inert:
  "(cards (fst (session p b acts)) = [] \<longrightarrow>
      currentCard (cards (fst (session p b acts))) (fst (snd (session p b acts))) = None \<and>
      step (fst (session p b acts)) (User u) (snd (session p b acts)) = snd (session p b acts) \<and>
      armed (snd (snd (session p b acts))) = []) \<and>
   (cards p = [] \<longrightarrow>
      run p evs (mount p b) = mount p b \<and>
      fst (mount p b) = init_state b \<and>
      armed (snd (mount p b)) = [])"
proof -
  obtain q cfg where r: "session p b acts = (q, cfg)" by (cases "session p b acts")
  have i: "engine_inv q cfg" using session_inv[of p b acts] by (simp add: r)
  have a: "cards q = [] \<longrightarrow> armed (snd cfg) = []"
    using session_empty[of p b acts] by (simp add: r empty_disarmed_def)
  have "cards q = [] \<longrightarrow> step q (User u) cfg = cfg" using step_empty[OF i] a by blast
  moreover have "cards q = [] \<longrightarrow> currentCard (cards q) (fst cfg) = None"
    by (auto simp: currentCard_def)
  moreover have "cards p = [] \<longrightarrow> fst (mount p b) = init_state b"
    by (simp add: engine_defs)
  ultimately show ?thesis using a empty_run[of p evs b] mount_empty[of p b] by (simp add: r)
qed

theorem empty_sequence_inert_witness:
  "cards (fst (session three_cards True [Event (User ClickCard), NewProps no_cards])) = [] \<and>
   isFlipped (fst (snd (session three_cards True [Event (User ClickCard), NewProps no_cards]))) \<and>
   currentCard (cards (fst (session three_cards True [Event (User ClickCard), NewProps no_cards])))
     (fst (snd (session three_cards True [Event (User ClickCard), NewProps no_cards]))) = None \<and>
   step (fst (session three_cards True [Event (User ClickCard), NewProps no_cards])) (User ClickCard)
     (snd (session three_cards True [Event (User ClickCard), NewProps no_cards])) =
     snd (session three_cards True [Event (User ClickCard), NewProps no_cards]) \<and>
   armed (snd (snd (session three_cards True [Event (User ClickCard), NewProps no_cards]))) = [] \<and>
   cards no_cards = [] \<and>
   run no_cards [User ClickCard, User ClickPlayPause, User ClickNext, TimerFires 1]
     (mount no_cards True) = mount no_cards True \<and>
   fst (mount no_cards True) = init_state True \<and>
   armed (snd (mount no_cards True)) = []"
proof -
  let ?acts = "[Event (User ClickCard), NewProps no_cards]"
  have h: "cards (fst (session three_cards True ?acts)) = []" "cards no_cards = []"
    by (simp_all add: session_def no_cards_def)
  have b: "isFlipped (fst (snd (session three_cards True ?acts)))"
    by (simp add: session_def three_cards_def no_cards_def engine_defs)
  from empty_sequence_inert[where p=three_cards and b=True and acts="?acts" and u=ClickCard]
       empty_sequence_inert[where p=no_cards and b=True and acts="[]" and
         evs="[User ClickCard, User ClickPlayPause, User ClickNext, TimerFires 1]"]
       h b
  show ?thesis by simp
qed


end
